theory Spec2Isabelle
  imports Main "HOL-Library.Monad_Syntax"
begin

section \<open>BigInteger: the data model\<close>

text \<open>
  The class \<^verbatim>\<open>BigInteger\<close> of \<^verbatim>\<open>biginteger.h\<close> holds a vector of \<^verbatim>\<open>uint32_t\<close> limbs,
  least significant first, and a sign flag. Limbs are modelled as natural numbers; where
  the source stores a wider intermediate into a narrower machine integer the reduction
  modulo the width is written out. Vector sizes and loop indices are unbounded naturals
  (the \<^verbatim>\<open>int\<close> loop indices of the source agree with them below \<open>2^31\<close> limbs).
  A result of type \<open>option\<close> is \<open>None\<close> exactly where the C++ execution would leave
  defined behaviour (a vector subscript out of range, \<^verbatim>\<open>back()\<close> of an empty vector)
  or throw from the standard library.
\<close>

record BigInteger =
  m_digits :: "nat list"
  m_negative :: bool

definition CELL_BASE :: nat where
  "CELL_BASE = 1000000000"

definition CELL_LEN :: nat where
  "CELL_LEN = 9"

text \<open>\<^verbatim>\<open>BigInteger()\<close>: the member initialisers \<^verbatim>\<open>m_digits({0}), m_negative(false)\<close>.\<close>

definition BigInteger_default :: BigInteger where
  "BigInteger_default = \<lparr>m_digits = [0], m_negative = False\<rparr>"

text \<open>
  \<^verbatim>\<open>remove_leading_zeroes\<close>: \<^verbatim>\<open>find_if\<close> over the reversed vector looks for the most
  significant non-zero limb; when there is none the value collapses to \<^verbatim>\<open>{0}\<close> with the
  sign cleared, otherwise everything above that limb is erased.
\<close>

definition remove_leading_zeroes :: "BigInteger \<Rightarrow> BigInteger" where
  "remove_leading_zeroes x =
     (if length (m_digits x) = 0 then x
      else (let r = dropWhile (\<lambda>d. d = 0) (rev (m_digits x))
            in if r = [] then \<lparr>m_digits = [0], m_negative = False\<rparr>
               else x\<lparr>m_digits := rev r\<rparr>))"

definition shift_left :: "BigInteger \<Rightarrow> BigInteger" where
  "shift_left x = x\<lparr>m_digits := 0 # m_digits x\<rparr>"

text \<open>\<^verbatim>\<open>std::vector::resize(n)\<close>: truncate, or extend with value-initialised (zero) cells.\<close>

definition resize :: "nat list \<Rightarrow> nat \<Rightarrow> nat list" where
  "resize ds n = take n ds @ replicate (n - length ds) 0"

text \<open>
  The loop of \<^verbatim>\<open>add_abs\<close>. The first argument is the part of the (resized) vector of
  \<^verbatim>\<open>*this\<close> from index \<open>i\<close> on, the second the part of \<^verbatim>\<open>other.m_digits\<close> from \<open>i\<close> on:
  the loop runs while \<open>i < max_size\<close> (the first list is not exhausted) or a carry is
  pending; past the end a zero limb is pushed and read. The sum is a \<^verbatim>\<open>uint64_t\<close> of
  three 32-bit values and cannot wrap.
\<close>

function add_abs_loop :: "nat list \<Rightarrow> nat list \<Rightarrow> nat \<Rightarrow> nat list" where
  "add_abs_loop ds os carry =
     (if ds \<noteq> [] \<or> carry \<noteq> 0 then
        (let d = (case ds of [] \<Rightarrow> 0 | x # _ \<Rightarrow> x);
             sum0 = d + carry;
             sum = (case os of [] \<Rightarrow> sum0 | y # _ \<Rightarrow> sum0 + y)
         in (sum mod CELL_BASE) # add_abs_loop (tl ds) (tl os) (sum div CELL_BASE))
      else [])"
  by pat_completeness auto
termination
  by (relation "measures [\<lambda>(ds, os, carry). length ds + length os, \<lambda>(ds, os, carry). carry]")
     (auto simp: CELL_BASE_def split: list.splits)

declare add_abs_loop.simps [simp del]

definition add_abs :: "BigInteger \<Rightarrow> BigInteger \<Rightarrow> BigInteger" where
  "add_abs x other =
     (let max_size = max (length (m_digits other)) (length (m_digits x))
      in remove_leading_zeroes
           (x\<lparr>m_digits := add_abs_loop (resize (m_digits x) max_size) (m_digits other) 0\<rparr>))"

lemma length_remove_leading_zeroes:
  "length (m_digits (remove_leading_zeroes x)) \<le> length (m_digits x)"
proof -
  have "length (dropWhile (\<lambda>d. d = 0) (rev (m_digits x))) \<le> length (m_digits x)"
    using length_dropWhile_le [of "\<lambda>d. d = 0" "rev (m_digits x)"] by simp
  moreover have "m_digits x \<noteq> [] \<Longrightarrow> Suc 0 \<le> length (m_digits x)"
    by (cases "m_digits x") simp_all
  ultimately show ?thesis
    by (simp add: remove_leading_zeroes_def Let_def)
qed

text \<open>
  The loop of \<^verbatim>\<open>sub_abs\<close>, by index: \<^verbatim>\<open>remove_leading_zeroes\<close> is called inside the
  loop body, so the bound \<^verbatim>\<open>m_digits.size()\<close> is read again at every iteration. The
  difference is an \<^verbatim>\<open>int64_t\<close>; storing it into the \<^verbatim>\<open>uint32_t\<close> limb reduces it modulo
  \<open>2^32\<close>.
\<close>

function sub_abs_loop :: "BigInteger \<Rightarrow> nat list \<Rightarrow> nat \<Rightarrow> nat \<Rightarrow> BigInteger" where
  "sub_abs_loop x os borrow i =
     (if i < length (m_digits x) then
        (let cell_to_sub = (if i < length os then os ! i else 0);
             diff = int (m_digits x ! i) - int borrow - int cell_to_sub;
             diff' = (if diff < 0 then diff + int CELL_BASE else diff);
             borrow' = (if diff < 0 then 1 else 0);
             x' = x\<lparr>m_digits := (m_digits x)[i := nat (diff' mod 2 ^ 32)]\<rparr>
         in sub_abs_loop (remove_leading_zeroes x') os borrow' (i + 1))
      else x)"
  by pat_completeness auto
termination
proof (relation "measure (\<lambda>(x, os, borrow, i). length (m_digits x) - i)", goal_cases)
  case 1
  show ?case by simp
next
  case (2 x os borrow i cell_to_sub diff diff' borrow' x')
  have "length (m_digits (remove_leading_zeroes x')) \<le> length (m_digits x')"
    by (rule length_remove_leading_zeroes)
  with 2 show ?case by simp
qed

declare sub_abs_loop.simps [simp del]

definition sub_abs :: "BigInteger \<Rightarrow> BigInteger \<Rightarrow> BigInteger" where
  "sub_abs x other = sub_abs_loop x (m_digits other) 0 0"

text \<open>
  The body of \<^verbatim>\<open>BigInteger(int num)\<close> on an argument whose absolute value is an \<^verbatim>\<open>int\<close>,
  that is on every \<^verbatim>\<open>int\<close> other than \<^verbatim>\<open>INT_MIN\<close>. The operators call the constructor only
  with values between 0 and \<open>10^9\<close>, so they use this function directly. On larger
  integers the function is still the limb decomposition of its argument, which the
  statements below use to name the canonical representation of an integer; it stands
  for a constructor call only through \<open>BigInteger_int_ctor\<close>.
\<close>

function BigInteger_int_loop :: "nat \<Rightarrow> nat list \<Rightarrow> nat list" where
  "BigInteger_int_loop num ds =
     (if num > 0 then BigInteger_int_loop (num div CELL_BASE) (ds @ [num mod CELL_BASE])
      else ds)"
  by pat_completeness auto
termination
  by (relation "measure (\<lambda>(num, ds). num)") (auto simp: CELL_BASE_def)

declare BigInteger_int_loop.simps [simp del]

definition BigInteger_int :: "int \<Rightarrow> BigInteger" where
  "BigInteger_int num =
     \<lparr>m_digits = (if nat \<bar>num\<bar> = 0 then [0] else BigInteger_int_loop (nat \<bar>num\<bar>) []),
      m_negative = (num < 0)\<rparr>"

text \<open>
  \<^verbatim>\<open>BigInteger(int num)\<close> as the public constructor on a 32-bit \<^verbatim>\<open>int\<close>. For \<^verbatim>\<open>INT_MIN\<close> the
  call \<^verbatim>\<open>std::abs(num)\<close> has undefined behaviour, which is \<open>None\<close>; an integer outside
  the range of \<^verbatim>\<open>int\<close> is not an argument of the constructor and is \<open>None\<close> as well.
\<close>

definition INT_MAX :: int where
  "INT_MAX = 2147483647"

definition BigInteger_int_ctor :: "int \<Rightarrow> BigInteger option" where
  "BigInteger_int_ctor num =
     (if - INT_MAX \<le> num \<and> num \<le> INT_MAX then Some (BigInteger_int num) else None)"

definition abs_bi :: "BigInteger \<Rightarrow> BigInteger" where
  "abs_bi x = x\<lparr>m_negative := False\<rparr>"

definition is_zero :: "BigInteger \<Rightarrow> bool" where
  "is_zero x = (length (m_digits x) = 1 \<and> m_digits x ! 0 = 0)"

definition isNegative :: "BigInteger \<Rightarrow> bool" where
  "isNegative x = m_negative x"

subsection \<open>Comparison\<close>

definition operator_eq :: "BigInteger \<Rightarrow> BigInteger \<Rightarrow> bool" where
  "operator_eq left right =
     (m_negative left = m_negative right \<and> m_digits left = m_digits right)"

definition operator_ne :: "BigInteger \<Rightarrow> BigInteger \<Rightarrow> bool" where
  "operator_ne left right = (\<not> operator_eq left right)"

text \<open>
  The limb loop of \<^verbatim>\<open>operator<\<close>, entered only when both vectors have the same size: the
  counter \<open>Suc i\<close> stands for the source's index \<open>i\<close> running from \<open>size - 1\<close> down to 0.
\<close>

fun less_loop :: "nat list \<Rightarrow> nat list \<Rightarrow> bool \<Rightarrow> nat \<Rightarrow> bool" where
  "less_loop ld rd neg 0 = False"
| "less_loop ld rd neg (Suc i) =
     (if ld ! i \<noteq> rd ! i
      then (let less = (ld ! i < rd ! i) in if neg then \<not> less else less)
      else less_loop ld rd neg i)"

definition operator_less :: "BigInteger \<Rightarrow> BigInteger \<Rightarrow> bool" where
  "operator_less left right =
     (if m_negative left \<noteq> m_negative right then m_negative left
      else if length (m_digits left) \<noteq> length (m_digits right)
      then (let less = (length (m_digits left) < length (m_digits right))
            in if m_negative left then \<not> less else less)
      else less_loop (m_digits left) (m_digits right) (m_negative left)
             (length (m_digits left)))"

definition operator_gt :: "BigInteger \<Rightarrow> BigInteger \<Rightarrow> bool" where
  "operator_gt left right = operator_less right left"

definition operator_le :: "BigInteger \<Rightarrow> BigInteger \<Rightarrow> bool" where
  "operator_le left right = (\<not> operator_gt left right)"

definition operator_ge :: "BigInteger \<Rightarrow> BigInteger \<Rightarrow> bool" where
  "operator_ge left right = (\<not> operator_less left right)"

subsection \<open>Addition and subtraction\<close>

text \<open>
  \<^verbatim>\<open>operator+=\<close>; the binary \<^verbatim>\<open>operator+\<close> copies its left operand and applies it, so
  one function models both (likewise for the other operators).
\<close>

definition operator_plus :: "BigInteger \<Rightarrow> BigInteger \<Rightarrow> BigInteger" where
  "operator_plus x other =
     (if m_negative x = m_negative other then add_abs x other
      else if operator_less (abs_bi x) (abs_bi other)
      then (let temp = sub_abs other x in temp\<lparr>m_negative := m_negative other\<rparr>)
      else sub_abs x other)"

definition operator_minus :: "BigInteger \<Rightarrow> BigInteger \<Rightarrow> BigInteger" where
  "operator_minus x other =
     (let x1 = (if operator_eq other x then x\<lparr>m_digits := [0]\<rparr>
                else (let x2 = x\<lparr>m_negative := \<not> m_negative x\<rparr>;
                          x3 = operator_plus x2 other
                      in x3\<lparr>m_negative := \<not> m_negative x3\<rparr>))
      in if is_zero x1 then x1\<lparr>m_negative := False\<rparr> else x1)"

definition operator_neg :: "BigInteger \<Rightarrow> BigInteger" where
  "operator_neg x =
     (if operator_ne x (BigInteger_int 0) then x\<lparr>m_negative := \<not> m_negative x\<rparr> else x)"

subsection \<open>Multiplication\<close>

text \<open>
  The inner loop of \<^verbatim>\<open>operator*=\<close> for one limb \<open>ai = m_digits[i]\<close> of the left operand.
  \<^verbatim>\<open>result.m_digits[i + j]\<close> is a plain vector subscript: out of range the behaviour is
  undefined, which the model reports as \<open>None\<close>. The product is a \<^verbatim>\<open>uint64_t\<close>.
\<close>

function mul_inner :: "nat list \<Rightarrow> nat \<Rightarrow> nat list \<Rightarrow> nat \<Rightarrow> nat \<Rightarrow> nat \<Rightarrow> nat list option" where
  "mul_inner res ai os i j carry =
     (if j < length os \<or> carry \<noteq> 0 then
        (if i + j < length res then
           (let product = (res ! (i + j) + carry + ai * (if j < length os then os ! j else 0))
                            mod 2 ^ 64
            in mul_inner (res[i + j := product mod CELL_BASE]) ai os i (j + 1)
                 (product div CELL_BASE))
         else None)
      else Some res)"
  by pat_completeness auto
termination
  by (relation "measure (\<lambda>(res, ai, os, i, j, carry). length res - (i + j))") auto

declare mul_inner.simps [simp del]

function mul_outer :: "nat list \<Rightarrow> nat list \<Rightarrow> nat list \<Rightarrow> nat \<Rightarrow> nat list option" where
  "mul_outer ds os res i =
     (if i < length ds then
        (case mul_inner res (ds ! i) os i 0 0 of
           None \<Rightarrow> None
         | Some res' \<Rightarrow> mul_outer ds os res' (i + 1))
      else Some res)"
  by pat_completeness auto
termination
  by (relation "measure (\<lambda>(ds, os, res, i). length ds - i)") auto

declare mul_outer.simps [simp del]

definition operator_mul :: "BigInteger \<Rightarrow> BigInteger \<Rightarrow> BigInteger option" where
  "operator_mul x other =
     (case mul_outer (m_digits x) (m_digits other)
             (resize [0] (length (m_digits x) + length (m_digits other) + 1)) 0 of
        None \<Rightarrow> None
      | Some rd \<Rightarrow>
          Some (remove_leading_zeroes
                  \<lparr>m_digits = rd, m_negative = (m_negative x \<noteq> m_negative other)\<rparr>))"

subsection \<open>Division and modulo\<close>

text \<open>
  The binary search of \<^verbatim>\<open>operator/=\<close> for one quotient limb; \<^verbatim>\<open>left\<close>, \<^verbatim>\<open>right\<close>,
  \<^verbatim>\<open>mid\<close> and \<^verbatim>\<open>val\<close> are \<^verbatim>\<open>int\<close>s between \<open>-1\<close> and \<open>10^9\<close>, so \<^verbatim>\<open>left + right\<close> stays
  below \<open>2^31\<close> and the shift is a division by two.
\<close>

function div_search :: "BigInteger \<Rightarrow> BigInteger \<Rightarrow> int \<Rightarrow> int \<Rightarrow> int \<Rightarrow> int option" where
  "div_search b curValue val left right =
     (if left \<le> right then
        (let mid = (left + right) div 2
         in case operator_mul b (BigInteger_int mid) of
              None \<Rightarrow> None
            | Some cur \<Rightarrow>
                if operator_le cur curValue
                then div_search b curValue mid (mid + 1) right
                else div_search b curValue val left (mid - 1))
      else Some val)"
  by pat_completeness auto
termination
  by (relation "measure (\<lambda>(b, curValue, val, left, right). nat (right + 1 - left))") auto

declare div_search.simps [simp del]

text \<open>
  The limb loop of \<^verbatim>\<open>operator/=\<close>: the counter \<open>Suc iter\<close> stands for the source's
  \<^verbatim>\<open>iter\<close> running from \<open>a.size - 1\<close> down to 0. The state is \<^verbatim>\<open>result\<close> and \<^verbatim>\<open>curValue\<close>.
  The loop is reached only when \<open>a\<close> is neither equal to nor less than \<open>b\<close>, both
  non-negative, so \<open>a\<close> has at least as many limbs as \<open>b\<close> and the \<^verbatim>\<open>size_t\<close> difference
  in the \<^verbatim>\<open>resize\<close> of \<^verbatim>\<open>operator/=\<close> does not wrap.
\<close>

fun div_loop :: "BigInteger \<Rightarrow> BigInteger \<Rightarrow> nat \<Rightarrow> BigInteger \<Rightarrow> BigInteger \<Rightarrow> BigInteger option" where
  "div_loop a b 0 result curValue = Some result"
| "div_loop a b (Suc iter) result curValue =
     (let c1 = shift_left curValue;
          c2 = (if m_digits c1 = [] then c1\<lparr>m_digits := m_digits c1 @ [m_digits a ! iter]\<rparr>
                else c1\<lparr>m_digits := (m_digits c1)[0 := m_digits a ! iter]\<rparr>);
          c3 = remove_leading_zeroes c2
      in case div_search b c3 0 0 (int CELL_BASE - 1) of
           None \<Rightarrow> None
         | Some val \<Rightarrow>
             (let result' =
                    (if iter < length (m_digits result)
                     then result\<lparr>m_digits := (m_digits result)[iter := nat val]\<rparr>
                     else result\<lparr>m_digits := m_digits result @ [nat val]\<rparr>)
              in case operator_mul b (BigInteger_int val) of
                   None \<Rightarrow> None
                 | Some bv \<Rightarrow> div_loop a b iter result' (operator_minus c3 bv)))"

declare div_loop.simps [simp del]

definition operator_div :: "BigInteger \<Rightarrow> BigInteger \<Rightarrow> BigInteger option" where
  "operator_div x other =
     (let result_negative = (m_negative x \<noteq> m_negative other);
          a = abs_bi x;
          b = abs_bi other
      in if operator_eq a b then Some (x\<lparr>m_digits := [1], m_negative := result_negative\<rparr>)
         else if operator_less a b then Some (BigInteger_int 0)
         else (case div_loop a b (length (m_digits a))
                      \<lparr>m_digits = resize [0] (length (m_digits a) - length (m_digits b) + 1),
                       m_negative = result_negative\<rparr>
                      BigInteger_default of
                 None \<Rightarrow> None
               | Some result \<Rightarrow> Some (remove_leading_zeroes result)))"

definition operator_mod :: "BigInteger \<Rightarrow> BigInteger \<Rightarrow> BigInteger option" where
  "operator_mod x other =
     (case operator_div x other of
        None \<Rightarrow> None
      | Some div_res \<Rightarrow>
          (case operator_mul div_res other of
             None \<Rightarrow> None
           | Some p \<Rightarrow> Some (operator_minus x p)))"

subsection \<open>Text conversion\<close>

text \<open>
  \<^verbatim>\<open>std::to_string\<close> and \<^verbatim>\<open>operator<<\<close> on an unsigned integer: its decimal digits, most
  significant first. \<^verbatim>\<open>std::stoul\<close> on a string of decimal digits: its value; the
  constructor calls it only on one to nine characters that \<^verbatim>\<open>is_correct_str\<close> has
  accepted as digits. \<^verbatim>\<open>isdigit\<close> in the C locale: true on the characters \<open>0\<close> to \<open>9\<close>
  (codes 48 to 57) and false on every other character.
\<close>

definition digit_char :: "nat \<Rightarrow> char" where
  "digit_char d = char_of (48 + d)"

function to_string :: "nat \<Rightarrow> string" where
  "to_string n = (if n < 10 then [digit_char n] else to_string (n div 10) @ [digit_char (n mod 10)])"
  by pat_completeness auto
termination
  by (relation "measure (\<lambda>n. n)") auto

declare to_string.simps [simp del]

definition isdigit :: "char \<Rightarrow> bool" where
  "isdigit c = (48 \<le> (of_char c :: nat) \<and> (of_char c :: nat) \<le> 57)"

definition stoul :: "string \<Rightarrow> nat" where
  "stoul part = foldl (\<lambda>acc c. 10 * acc + ((of_char c :: nat) - 48)) 0 part"

definition is_correct_str :: "string \<Rightarrow> bool" where
  "is_correct_str s =
     (if s = [] then True
      else (let start = (if hd s = CHR ''-'' \<or> hd s = CHR ''+'' then 1 else 0)
            in list_all isdigit (drop start s)))"

text \<open>
  The chunk loop of the string constructor, on \<^verbatim>\<open>int64_t\<close> indices: \<open>i\<close> steps down by
  \<^verbatim>\<open>CELL_LEN\<close> from the last character while \<open>i \<ge> start\<close>.
\<close>

function BigInteger_string_loop :: "string \<Rightarrow> int \<Rightarrow> int \<Rightarrow> nat list \<Rightarrow> nat list" where
  "BigInteger_string_loop s start i ds =
     (if i \<ge> start then
        (let end = max start (i + 1 - int CELL_LEN);
             part = take (nat (i - end + 1)) (drop (nat end) s)
         in BigInteger_string_loop s start (i - int CELL_LEN) (ds @ [stoul part]))
      else ds)"
  by pat_completeness auto
termination
  by (relation "measure (\<lambda>(s, start, i, ds). nat (i - start + 1))") (auto simp: CELL_LEN_def)

declare BigInteger_string_loop.simps [simp del]

definition BigInteger_string :: "string \<Rightarrow> BigInteger" where
  "BigInteger_string s =
     (if s = [] \<or> \<not> is_correct_str s then BigInteger_default
      else (let neg = (hd s = CHR ''-'');
                start = (if hd s = CHR ''-'' then 1 else if hd s = CHR ''+'' then 1 else 0);
                x = remove_leading_zeroes
                      \<lparr>m_digits = BigInteger_string_loop s start (int (length s) - 1) [],
                       m_negative = neg\<rparr>
            in if m_digits x = [] then x\<lparr>m_digits := m_digits x @ [0]\<rparr> else x))"

text \<open>
  \<^verbatim>\<open>toString\<close>. The padding length \<^verbatim>\<open>CELL_LEN - to_string(..).size()\<close> is a \<^verbatim>\<open>size_t\<close>:
  for a limb of more than nine digits it wraps around and the \<^verbatim>\<open>std::string\<close>
  constructor throws, which is \<open>None\<close> here. The counter \<open>Suc i\<close> stands for the source's
  \<open>i\<close> running from \<open>size - 2\<close> down to 0.
\<close>

definition pad_cell :: "nat \<Rightarrow> string option" where
  "pad_cell d =
     (let s = to_string d
      in if length s \<le> CELL_LEN then Some (replicate (CELL_LEN - length s) CHR ''0'' @ s)
         else None)"

fun toString_loop :: "nat list \<Rightarrow> nat \<Rightarrow> string \<Rightarrow> string option" where
  "toString_loop ds 0 ss = Some ss"
| "toString_loop ds (Suc i) ss =
     (case pad_cell (ds ! i) of
        None \<Rightarrow> None
      | Some p \<Rightarrow> toString_loop ds i (ss @ p))"

definition toString :: "BigInteger \<Rightarrow> string option" where
  "toString x =
     (if is_zero x then Some ''0''
      else if m_digits x = [] then None
      else toString_loop (m_digits x) (length (m_digits x) - 1)
             ((if m_negative x then ''-'' else '''') @ to_string (last (m_digits x))))"

section \<open>Rational: the data model\<close>

text \<open>
  The class \<^verbatim>\<open>Rational\<close> is a pair of \<^verbatim>\<open>BigInteger\<close>s. Its operations inherit the
  \<open>option\<close> results of multiplication and division; the Euclidean loop of \<^verbatim>\<open>gcd\<close> has
  no bound that holds for every pair of limb vectors, so it is a partial function whose
  result \<open>None\<close> also stands for a loop that does not return.
\<close>

record Rational =
  numerator :: BigInteger
  denominator :: BigInteger

partial_function (option) gcd_loop :: "BigInteger \<Rightarrow> BigInteger \<Rightarrow> BigInteger option" where
  "gcd_loop a b =
     (if operator_ne b (BigInteger_int 0)
      then operator_mod a b \<bind> (\<lambda>a'. gcd_loop b a')
      else Some a)"

definition Rational_gcd :: "BigInteger \<Rightarrow> BigInteger \<Rightarrow> BigInteger option" where
  "Rational_gcd a b = gcd_loop (abs_bi a) (abs_bi b)"

definition Rational_normalize :: "Rational \<Rightarrow> Rational option" where
  "Rational_normalize r =
     (let r1 = (if operator_less (denominator r) (BigInteger_int 0)
                then r\<lparr>numerator := operator_neg (numerator r),
                       denominator := operator_neg (denominator r)\<rparr>
                else r)
      in do {
        g \<leftarrow> Rational_gcd (numerator r1) (denominator r1);
        if operator_ne g (BigInteger_int 0)
        then do {
          n \<leftarrow> operator_div (numerator r1) g;
          d \<leftarrow> operator_div (denominator r1) g;
          Some \<lparr>numerator = n, denominator = d\<rparr>
        }
        else Some r1
      })"

text \<open>The four constructors.\<close>

definition Rational_default :: Rational where
  "Rational_default = \<lparr>numerator = BigInteger_int 0, denominator = BigInteger_int 1\<rparr>"

definition Rational_int :: "int \<Rightarrow> Rational option" where
  "Rational_int num = do {
     n \<leftarrow> BigInteger_int_ctor num;
     Some \<lparr>numerator = n, denominator = BigInteger_int 1\<rparr>
   }"

definition Rational_BigInteger :: "BigInteger \<Rightarrow> Rational" where
  "Rational_BigInteger num = \<lparr>numerator = num, denominator = BigInteger_int 1\<rparr>"

definition Rational_pair :: "BigInteger \<Rightarrow> BigInteger \<Rightarrow> Rational option" where
  "Rational_pair num denom = Rational_normalize \<lparr>numerator = num, denominator = denom\<rparr>"

text \<open>
  The compound assignments; the binary operators copy the left operand and apply them.
  The second argument is the value of \<^verbatim>\<open>other\<close> when the call starts. \<^verbatim>\<open>operator+=\<close> and
  \<^verbatim>\<open>operator-=\<close> read both operands before they write, and \<^verbatim>\<open>operator*=\<close> reads
  \<^verbatim>\<open>other.denominator\<close> before it writes \<^verbatim>\<open>denominator\<close>, so these three functions also
  describe a call whose right operand is the object itself. \<^verbatim>\<open>operator/=\<close> writes
  \<^verbatim>\<open>numerator\<close> first and reads \<^verbatim>\<open>other.numerator\<close> afterwards: \<open>Rational_div\<close> is the call
  on two different objects, \<open>Rational_div_self\<close> the call \<^verbatim>\<open>x /= x\<close>, where the second
  product takes the numerator already multiplied.
\<close>

definition Rational_plus :: "Rational \<Rightarrow> Rational \<Rightarrow> Rational option" where
  "Rational_plus x other = do {
     t1 \<leftarrow> operator_mul (numerator x) (denominator other);
     t2 \<leftarrow> operator_mul (numerator other) (denominator x);
     d \<leftarrow> operator_mul (denominator x) (denominator other);
     Rational_normalize \<lparr>numerator = operator_plus t1 t2, denominator = d\<rparr>
   }"

definition Rational_minus :: "Rational \<Rightarrow> Rational \<Rightarrow> Rational option" where
  "Rational_minus x other = do {
     t1 \<leftarrow> operator_mul (numerator x) (denominator other);
     t2 \<leftarrow> operator_mul (numerator other) (denominator x);
     d \<leftarrow> operator_mul (denominator x) (denominator other);
     Rational_normalize \<lparr>numerator = operator_minus t1 t2, denominator = d\<rparr>
   }"

definition Rational_mul :: "Rational \<Rightarrow> Rational \<Rightarrow> Rational option" where
  "Rational_mul x other = do {
     n \<leftarrow> operator_mul (numerator x) (numerator other);
     d \<leftarrow> operator_mul (denominator x) (denominator other);
     Rational_normalize \<lparr>numerator = n, denominator = d\<rparr>
   }"

definition Rational_div :: "Rational \<Rightarrow> Rational \<Rightarrow> Rational option" where
  "Rational_div x other = do {
     n \<leftarrow> operator_mul (numerator x) (denominator other);
     d \<leftarrow> operator_mul (denominator x) (numerator other);
     Rational_normalize \<lparr>numerator = n, denominator = d\<rparr>
   }"

definition Rational_div_self :: "Rational \<Rightarrow> Rational option" where
  "Rational_div_self x = do {
     n \<leftarrow> operator_mul (numerator x) (denominator x);
     d \<leftarrow> operator_mul (denominator x) n;
     Rational_normalize \<lparr>numerator = n, denominator = d\<rparr>
   }"

definition Rational_isNegative :: "Rational \<Rightarrow> bool" where
  "Rational_isNegative r = (isNegative (numerator r) \<noteq> isNegative (denominator r))"

definition Rational_neg :: "Rational \<Rightarrow> Rational option" where
  "Rational_neg r = Rational_pair (operator_neg (numerator r)) (denominator r)"

definition Rational_toString :: "Rational \<Rightarrow> string option" where
  "Rational_toString r =
     (if operator_eq (denominator r) (BigInteger_int 1) then toString (numerator r)
      else do {
        n \<leftarrow> toString (numerator r);
        d \<leftarrow> toString (denominator r);
        Some (n @ ''/'' @ d)
      })"

text \<open>
  The digit loop of \<^verbatim>\<open>asDecimal\<close>; its body does not read the loop index, so the counter
  is the number of iterations left.
\<close>

fun asDecimal_loop :: "nat \<Rightarrow> BigInteger \<Rightarrow> BigInteger \<Rightarrow> string \<Rightarrow> string option" where
  "asDecimal_loop 0 num den result = Some result"
| "asDecimal_loop (Suc i) num den result = do {
     digit \<leftarrow> operator_div num den;
     s \<leftarrow> toString digit;
     m \<leftarrow> operator_mod num den;
     num' \<leftarrow> operator_mul m (BigInteger_int 10);
     asDecimal_loop i num' den (result @ s)
   }"

declare asDecimal_loop.simps [simp del]

definition asDecimal :: "Rational \<Rightarrow> nat \<Rightarrow> string option" where
  "asDecimal r precision = do {
     integerPart \<leftarrow> operator_div (numerator r) (denominator r);
     num \<leftarrow> operator_mod (numerator r) (denominator r);
     ip \<leftarrow> toString integerPart;
     let result =
           (if operator_less num (BigInteger_int 0) \<and> operator_eq integerPart (BigInteger_int 0)
            then ''-'' else []) @ ip;
     if precision = 0 then Some result
     else do {
       num' \<leftarrow> operator_mul (abs_bi num) (BigInteger_int 10);
       asDecimal_loop precision num' (denominator r) (result @ ''.'')
     }
   }"

definition Rational_eq :: "Rational \<Rightarrow> Rational \<Rightarrow> bool option" where
  "Rational_eq left right = do {
     l \<leftarrow> operator_mul (numerator left) (denominator right);
     r \<leftarrow> operator_mul (numerator right) (denominator left);
     Some (operator_eq l r)
   }"

definition Rational_less :: "Rational \<Rightarrow> Rational \<Rightarrow> bool option" where
  "Rational_less left right = do {
     l \<leftarrow> operator_mul (numerator left) (denominator right);
     r \<leftarrow> operator_mul (numerator right) (denominator left);
     Some (operator_less l r)
   }"

section \<open>Specification-level notions\<close>

text \<open>
  The value of a limb vector in base \<open>10^9\<close>, the invariants of the data model
  (every limb below the base; no most-significant zero limb except in the single-limb
  zero; no negative zero) and the integer a BigInteger stands for.
\<close>

fun lv :: "nat list \<Rightarrow> nat" where
  "lv [] = 0"
| "lv (d # ds) = d + CELL_BASE * lv ds"

definition limbs_ok :: "nat list \<Rightarrow> bool" where
  "limbs_ok ds = list_all (\<lambda>d. d < CELL_BASE) ds"

definition normalized :: "nat list \<Rightarrow> bool" where
  "normalized ds = (ds \<noteq> [] \<and> limbs_ok ds \<and> (ds = [0] \<or> last ds \<noteq> 0))"

definition BigInteger_inv :: "BigInteger \<Rightarrow> bool" where
  "BigInteger_inv x = (normalized (m_digits x) \<and> \<not> (m_digits x = [0] \<and> m_negative x))"

definition bi_val :: "BigInteger \<Rightarrow> int" where
  "bi_val x = (if m_negative x then - int (lv (m_digits x)) else int (lv (m_digits x)))"

text \<open>Division truncated toward zero and its remainder, on mathematical integers.\<close>

definition tdiv :: "int \<Rightarrow> int \<Rightarrow> int" where
  "tdiv a b = sgn a * sgn b * (\<bar>a\<bar> div \<bar>b\<bar>)"

definition tmod :: "int \<Rightarrow> int \<Rightarrow> int" where
  "tmod a b = sgn a * (\<bar>a\<bar> mod \<bar>b\<bar>)"

text \<open>
  The value the binary search computes: the largest candidate below the base whose
  product with the divisor magnitude does not exceed the running remainder.
\<close>

definition qdigit :: "nat \<Rightarrow> nat \<Rightarrow> nat" where
  "qdigit bv cv = (if bv = 0 then CELL_BASE - 1 else min (cv div bv) (CELL_BASE - 1))"

text \<open>The zero-padded rendering of a number in exactly \<open>k\<close> decimal digits.\<close>

fun digits_n :: "nat \<Rightarrow> nat \<Rightarrow> string" where
  "digits_n 0 d = []"
| "digits_n (Suc k) d = digits_n k (d div 10) @ [digit_char (d mod 10)]"

text \<open>
  A decimal literal in canonical form, in the words of the specification: an optional
  minus on a non-zero value, no leading zeros, zero written \<open>0\<close>.
\<close>

definition canonical_decimal :: "string \<Rightarrow> bool" where
  "canonical_decimal s =
     (let body = (case s of [] \<Rightarrow> [] | c # cs \<Rightarrow> if c = CHR ''-'' then cs else s)
      in s = ''0'' \<or> (body \<noteq> [] \<and> list_all isdigit body \<and> hd body \<noteq> CHR ''0''))"

text \<open>The invariant of \<^verbatim>\<open>Rational\<close>: canonical parts, positive denominator, lowest terms.\<close>

definition Rational_inv :: "Rational \<Rightarrow> bool" where
  "Rational_inv r =
     (BigInteger_inv (numerator r) \<and> BigInteger_inv (denominator r)
      \<and> 0 < bi_val (denominator r)
      \<and> gcd \<bar>bi_val (numerator r)\<bar> \<bar>bi_val (denominator r)\<bar> = 1)"

text \<open>
  Lowest terms alone: a strictly positive denominator coprime to the numerator, over
  normalised limb vectors. Unlike \<open>Rational_inv\<close> it admits a numerator that is a negative
  zero, which the constructor from a single BigInteger stores as it is.
\<close>

definition Rational_lowest :: "Rational \<Rightarrow> bool" where
  "Rational_lowest r =
     (normalized (m_digits (numerator r)) \<and> normalized (m_digits (denominator r))
      \<and> 0 < bi_val (denominator r)
      \<and> gcd \<bar>bi_val (numerator r)\<bar> \<bar>bi_val (denominator r)\<bar> = 1)"

text \<open>
  The decimal expansion in the words of the specification: the decimal text of an
  integer, and the fractional digits obtained by repeatedly multiplying the remainder by
  ten and dividing by the denominator.
\<close>

definition decimal_of_int :: "int \<Rightarrow> string" where
  "decimal_of_int i = (if i < 0 then ''-'' else []) @ to_string (nat \<bar>i\<bar>)"

fun frac_digits :: "nat \<Rightarrow> nat \<Rightarrow> nat \<Rightarrow> nat list" where
  "frac_digits 0 r d = []"
| "frac_digits (Suc p) r d = (10 * r) div d # frac_digits p ((10 * r) mod d) d"

definition asDecimal_spec :: "int \<Rightarrow> int \<Rightarrow> nat \<Rightarrow> string" where
  "asDecimal_spec n d p =
     (if n < 0 \<and> tdiv n d = 0 then ''-'' else [])
     @ decimal_of_int (tdiv n d) @ ''.''
     @ map digit_char (frac_digits p (nat (\<bar>n\<bar> mod d)) (nat d))"

section \<open>BigInteger: correctness of the operations\<close>

lemma CELL_BASE_pos: "0 < CELL_BASE"
  by (simp add: CELL_BASE_def)

lemma lv_append: "lv (xs @ ys) = lv xs + CELL_BASE ^ length xs * lv ys"
  by (induction xs) (simp_all add: algebra_simps)

lemma limbs_ok_simps [simp]:
  "limbs_ok []"
  "limbs_ok (d # ds) = (d < CELL_BASE \<and> limbs_ok ds)"
  "limbs_ok (xs @ ys) = (limbs_ok xs \<and> limbs_ok ys)"
  "limbs_ok (rev xs) = limbs_ok xs"
  by (simp_all add: limbs_ok_def)

lemma limbs_ok_nth: "limbs_ok ds \<Longrightarrow> i < length ds \<Longrightarrow> ds ! i < CELL_BASE"
  by (simp add: limbs_ok_def list_all_length)

lemma limbs_ok_update: "limbs_ok ds \<Longrightarrow> v < CELL_BASE \<Longrightarrow> limbs_ok (ds[i := v])"
  unfolding limbs_ok_def list_all_iff by (metis insertE set_update_subset_insert subsetD)

lemma limbs_ok_take: "limbs_ok ds \<Longrightarrow> limbs_ok (take n ds)"
  unfolding limbs_ok_def list_all_iff by (meson in_set_takeD)

lemma limbs_ok_drop: "limbs_ok ds \<Longrightarrow> limbs_ok (drop n ds)"
  unfolding limbs_ok_def list_all_iff by (meson in_set_dropD)

lemma limbs_ok_replicate0 [simp]: "limbs_ok (replicate n 0)"
  by (simp add: limbs_ok_def list_all_iff CELL_BASE_def)

lemma lv_lt: "limbs_ok ds \<Longrightarrow> lv ds < CELL_BASE ^ length ds"
proof (induction ds)
  case Nil
  then show ?case by simp
next
  case (Cons d ds)
  then have d: "d < CELL_BASE" and r: "lv ds < CELL_BASE ^ length ds" by simp_all
  from r have "lv ds + 1 \<le> CELL_BASE ^ length ds" by simp
  then have "CELL_BASE * (lv ds + 1) \<le> CELL_BASE * CELL_BASE ^ length ds"
    by (rule mult_le_mono2)
  with d show ?case by simp
qed

lemma lv_replicate0 [simp]: "lv (replicate n 0) = 0"
  by (induction n) simp_all

lemma lv_eq_0_iff: "lv ds = 0 \<longleftrightarrow> list_all (\<lambda>d. d = 0) ds"
  by (induction ds) (auto simp: CELL_BASE_def)

lemma lv_strip: "lv (rev (dropWhile (\<lambda>d. d = 0) (rev ds))) = lv ds"
proof -
  have "rev ds = takeWhile (\<lambda>d. d = 0) (rev ds) @ dropWhile (\<lambda>d. d = 0) (rev ds)"
    by simp
  then have "ds = rev (dropWhile (\<lambda>d. d = 0) (rev ds)) @ rev (takeWhile (\<lambda>d. d = 0) (rev ds))"
    by (metis rev_append rev_rev_ident)
  moreover have "lv (rev (takeWhile (\<lambda>d. d = 0) (rev ds))) = 0"
    unfolding lv_eq_0_iff list_all_iff by (metis set_rev set_takeWhileD)
  ultimately show ?thesis
    by (metis lv_append mult_0_right add_0_right)
qed

lemma lv_ge_last: "ds \<noteq> [] \<Longrightarrow> last ds * CELL_BASE ^ (length ds - 1) \<le> lv ds"
proof (induction ds)
  case Nil
  then show ?case by simp
next
  case (Cons d ds)
  show ?case
  proof (cases "ds = []")
    case True
    then show ?thesis by simp
  next
    case False
    with Cons have "last ds * CELL_BASE ^ (length ds - 1) \<le> lv ds" by simp
    then have "CELL_BASE * (last ds * CELL_BASE ^ (length ds - 1)) \<le> CELL_BASE * lv ds"
      by (rule mult_le_mono2)
    moreover from False have "length ds = Suc (length ds - 1)" by (cases ds) simp_all
    then have p: "CELL_BASE ^ length ds = CELL_BASE * CELL_BASE ^ (length ds - 1)"
      by (metis power_Suc)
    ultimately have "CELL_BASE * (last ds * CELL_BASE ^ (length ds - 1)) \<le> d + CELL_BASE * lv ds"
      by linarith
    moreover have "last (d # ds) * CELL_BASE ^ (length (d # ds) - 1)
         = CELL_BASE * (last ds * CELL_BASE ^ (length ds - 1))"
      using False p by (simp add: mult.left_commute)
    ultimately show ?thesis by (simp only: lv.simps)
  qed
qed

lemma normalized_lower: 
  assumes "normalized ds" "ds \<noteq> [0]"
  shows "CELL_BASE ^ (length ds - 1) \<le> lv ds"
proof -
  from assms have ne: "ds \<noteq> []" and l: "last ds \<noteq> 0" by (auto simp: normalized_def)
  from l have "1 \<le> last ds" by simp
  then have "1 * CELL_BASE ^ (length ds - 1) \<le> last ds * CELL_BASE ^ (length ds - 1)"
    by (rule mult_le_mono1)
  then have "CELL_BASE ^ (length ds - 1) \<le> last ds * CELL_BASE ^ (length ds - 1)"
    by (simp only: nat_mult_1)
  with lv_ge_last [OF ne] show ?thesis by linarith
qed

lemma normalized_zero: "normalized ds \<Longrightarrow> lv ds = 0 \<longleftrightarrow> ds = [0]"
proof
  assume n: "normalized ds" and z: "lv ds = 0"
  show "ds = [0]"
  proof (rule ccontr)
    assume "ds \<noteq> [0]"
    from normalized_lower [OF n this] z show False by (simp add: CELL_BASE_def)
  qed
qed simp

lemma lv_inj_same_length:
  "length xs = length ys \<Longrightarrow> limbs_ok xs \<Longrightarrow> limbs_ok ys \<Longrightarrow> lv xs = lv ys \<Longrightarrow> xs = ys"
proof (induction xs ys rule: list_induct2)
  case Nil
  then show ?case by simp
next
  case (Cons x xs y ys)
  then have x: "x < CELL_BASE" and y: "y < CELL_BASE" 
    and e: "x + CELL_BASE * lv xs = y + CELL_BASE * lv ys" by simp_all
  have "(x + CELL_BASE * lv xs) mod CELL_BASE = x" using x by simp
  moreover have "(y + CELL_BASE * lv ys) mod CELL_BASE = y" using y by simp
  ultimately have "x = y" using e by metis
  with e have "lv xs = lv ys" by (simp add: CELL_BASE_def)
  with Cons \<open>x = y\<close> show ?case by simp
qed

lemma normalized_length_mono:
  assumes "normalized xs" "normalized ys" "length xs < length ys"
  shows "lv xs < lv ys"
proof -
  from assms have "ys \<noteq> [0]" "xs \<noteq> []" by (auto simp: normalized_def)
  from normalized_lower [OF assms(2) this(1)] have "CELL_BASE ^ (length ys - 1) \<le> lv ys" .
  moreover have "lv xs < CELL_BASE ^ length xs" using assms(1) by (simp add: normalized_def lv_lt)
  moreover have "CELL_BASE ^ length xs \<le> CELL_BASE ^ (length ys - 1)"
    using assms(3) by (intro power_increasing) (simp_all add: CELL_BASE_def)
  ultimately show ?thesis by linarith
qed

lemma normalized_inj:
  assumes "normalized xs" "normalized ys" "lv xs = lv ys"
  shows "xs = ys"
proof -
  have "length xs = length ys"
    using normalized_length_mono [OF assms(1,2)] normalized_length_mono [OF assms(2,1)] assms(3)
    by (metis less_irrefl nat_neq_iff)
  then show ?thesis using assms by (intro lv_inj_same_length) (simp_all add: normalized_def)
qed

lemma bi_val_inj:
  assumes "BigInteger_inv x" "BigInteger_inv y" "bi_val x = bi_val y"
  shows "x = y"
proof -
  from assms have nx: "normalized (m_digits x)" and ny: "normalized (m_digits y)"
    by (simp_all add: BigInteger_inv_def)
  have zx: "lv (m_digits x) = 0 \<Longrightarrow> \<not> m_negative x" 
    using assms(1) normalized_zero [OF nx] by (auto simp: BigInteger_inv_def)
  have zy: "lv (m_digits y) = 0 \<Longrightarrow> \<not> m_negative y" 
    using assms(2) normalized_zero [OF ny] by (auto simp: BigInteger_inv_def)
  from assms(3) zx zy have s: "m_negative x = m_negative y" and v: "lv (m_digits x) = lv (m_digits y)"
    by (auto simp: bi_val_def split: if_splits)
  from normalized_inj [OF nx ny v] s show ?thesis by simp
qed

lemma is_correct_str_bad_char:
  assumes "i < length s" "\<not> isdigit (s ! i)"
    and "\<not> (i = 0 \<and> (s ! 0 = CHR ''-'' \<or> s ! 0 = CHR ''+''))"
  shows "\<not> is_correct_str s"
proof -
  from assms(1) have ne: "s \<noteq> []" by auto
  then have hd: "hd s = s ! 0" by (simp add: hd_conv_nth)
  define start :: nat where "start = (if hd s = CHR ''-'' \<or> hd s = CHR ''+'' then 1 else 0)"
  have "start \<le> i" using assms(3) hd by (auto simp: start_def)
  then have "drop start s ! (i - start) = s ! i" "i - start < length (drop start s)"
    using assms(1) by simp_all
  then have "s ! i \<in> set (drop start s)"
    by (metis nth_mem)
  with assms(2) have "\<not> list_all isdigit (drop start s)"
    by (auto simp: list_all_iff)
  with ne show ?thesis
    by (simp add: is_correct_str_def start_def Let_def)
qed

subsection \<open>Normalisation\<close>

lemma strip_eq_Nil: "(dropWhile (\<lambda>d. d = 0) (rev ds) = []) = (lv ds = 0)"
  by (simp add: lv_eq_0_iff list_all_iff dropWhile_eq_Nil_conv)

lemma strip_last: 
  assumes "dropWhile (\<lambda>d. d = (0::nat)) (rev ds) \<noteq> []"
  shows "last (rev (dropWhile (\<lambda>d. d = 0) (rev ds))) \<noteq> 0"
proof -
  from assms have "hd (dropWhile (\<lambda>d. d = 0) (rev ds)) \<noteq> 0"
    by (rule hd_dropWhile)
  with assms show ?thesis by (simp add: last_rev)
qed

lemma limbs_ok_strip: "limbs_ok ds \<Longrightarrow> limbs_ok (rev (dropWhile (\<lambda>d. d = 0) (rev ds)))"
  unfolding limbs_ok_def list_all_iff by (metis set_dropWhileD set_rev)

lemma rlz_empty: "m_digits x = [] \<Longrightarrow> remove_leading_zeroes x = x"
  by (simp add: remove_leading_zeroes_def)

lemma rlz_zero:
  "m_digits x \<noteq> [] \<Longrightarrow> lv (m_digits x) = 0 \<Longrightarrow>
   remove_leading_zeroes x = \<lparr>m_digits = [0], m_negative = False\<rparr>"
  unfolding remove_leading_zeroes_def Let_def strip_eq_Nil by simp

lemma rlz_nonzero:
  assumes "lv (m_digits x) \<noteq> 0"
  shows "remove_leading_zeroes x
           = x\<lparr>m_digits := rev (dropWhile (\<lambda>d. d = 0) (rev (m_digits x)))\<rparr>"
proof -
  from assms have "m_digits x \<noteq> []" by auto
  with assms show ?thesis
    unfolding remove_leading_zeroes_def Let_def strip_eq_Nil by simp
qed

lemma rlz_lv [simp]: "lv (m_digits (remove_leading_zeroes x)) = lv (m_digits x)"
proof (cases "lv (m_digits x) = 0")
  case True
  then show ?thesis by (cases "m_digits x = []") (simp_all add: rlz_empty rlz_zero)
next
  case False
  then show ?thesis by (simp add: rlz_nonzero lv_strip)
qed

lemma rlz_normalized:
  assumes "m_digits x \<noteq> []" "limbs_ok (m_digits x)"
  shows "normalized (m_digits (remove_leading_zeroes x))"
proof (cases "lv (m_digits x) = 0")
  case True
  with assms show ?thesis by (simp add: rlz_zero normalized_def CELL_BASE_def)
next
  case False
  then have "dropWhile (\<lambda>d. d = 0) (rev (m_digits x)) \<noteq> []"
    by (simp only: strip_eq_Nil) simp
  then show ?thesis
    using False assms(2) strip_last [of "m_digits x"] limbs_ok_strip [of "m_digits x"]
    by (simp add: rlz_nonzero normalized_def)
qed

lemma rlz_negative:
  "m_digits x \<noteq> [] \<Longrightarrow>
   m_negative (remove_leading_zeroes x) = (m_negative x \<and> lv (m_digits x) \<noteq> 0)"
  by (cases "lv (m_digits x) = 0") (simp_all add: rlz_zero rlz_nonzero)

lemma rlz_inv:
  assumes "m_digits x \<noteq> []" "limbs_ok (m_digits x)"
  shows "BigInteger_inv (remove_leading_zeroes x)"
proof -
  have n: "normalized (m_digits (remove_leading_zeroes x))"
    using assms by (rule rlz_normalized)
  have "m_digits (remove_leading_zeroes x) = [0] \<Longrightarrow> \<not> m_negative (remove_leading_zeroes x)"
  proof -
    assume "m_digits (remove_leading_zeroes x) = [0]"
    then have "lv (m_digits (remove_leading_zeroes x)) = 0" by simp
    then have "lv (m_digits x) = 0" by simp
    then show ?thesis by (simp add: rlz_negative [OF assms(1)])
  qed
  with n show ?thesis by (auto simp: BigInteger_inv_def)
qed

lemma strip_id: "ds \<noteq> [] \<Longrightarrow> last ds \<noteq> 0 \<Longrightarrow> rev (dropWhile (\<lambda>d. d = 0) (rev ds)) = ds"
  by (cases "rev ds") (simp_all add: last_rev hd_rev [symmetric])

lemma rlz_id:
  assumes "m_digits x \<noteq> []" "last (m_digits x) \<noteq> 0"
  shows "remove_leading_zeroes x = x"
proof -
  have "last (m_digits x) * CELL_BASE ^ (length (m_digits x) - 1) \<le> lv (m_digits x)"
    using assms(1) by (rule lv_ge_last)
  moreover have "0 < last (m_digits x) * CELL_BASE ^ (length (m_digits x) - 1)"
    using assms(2) CELL_BASE_pos by simp
  ultimately have "lv (m_digits x) \<noteq> 0" by linarith
  then show ?thesis using assms by (simp add: rlz_nonzero strip_id)
qed

lemma bi_val_rlz: "m_digits x \<noteq> [] \<Longrightarrow> bi_val (remove_leading_zeroes x) = bi_val x"
  by (simp add: bi_val_def rlz_negative)

subsection \<open>Magnitude addition\<close>

lemma add_abs_loop_limbs_ok: "limbs_ok (add_abs_loop ds os carry)"
proof (induction ds os carry rule: add_abs_loop.induct)
  case (1 ds os carry)
  show ?case
  proof (cases "ds \<noteq> [] \<or> carry \<noteq> 0")
    case True
    then show ?thesis
      using 1 [OF True refl refl refl]
      by (subst add_abs_loop.simps) (simp add: Let_def CELL_BASE_pos)
  next
    case False
    then show ?thesis by (subst add_abs_loop.simps) simp
  qed
qed

lemma add_abs_loop_lv:
  "length os \<le> length ds \<Longrightarrow> lv (add_abs_loop ds os carry) = lv ds + lv os + carry"
proof (induction ds os carry rule: add_abs_loop.induct)
  case (1 ds os carry)
  show ?case
  proof (cases "ds \<noteq> [] \<or> carry \<noteq> 0")
    case False
    with 1(2) show ?thesis by (subst add_abs_loop.simps) simp
  next
    case True
    define d where "d = (case ds of [] \<Rightarrow> 0 | x # _ \<Rightarrow> x)"
    define sum0 where "sum0 = d + carry"
    define sum where "sum = (case os of [] \<Rightarrow> sum0 | y # _ \<Rightarrow> sum0 + y)"
    have len: "length (tl os) \<le> length (tl ds)" using 1(2) by simp
    have ih: "lv (add_abs_loop (tl ds) (tl os) (sum div CELL_BASE))
                = lv (tl ds) + lv (tl os) + sum div CELL_BASE"
      using 1(1) [OF True d_def sum0_def sum_def len] .
    have unf: "add_abs_loop ds os carry
                = (sum mod CELL_BASE) # add_abs_loop (tl ds) (tl os) (sum div CELL_BASE)"
      unfolding sum_def sum0_def d_def
      using True by (subst add_abs_loop.simps) (simp add: Let_def)
    have dv: "lv ds = d + CELL_BASE * lv (tl ds)"
      by (cases ds) (simp_all add: d_def)
    have ov: "sum0 + lv os = sum + CELL_BASE * lv (tl os)"
      by (cases os) (simp_all add: sum_def)
    have "lv (add_abs_loop ds os carry)
            = sum mod CELL_BASE + CELL_BASE * (lv (tl ds) + lv (tl os) + sum div CELL_BASE)"
      by (simp only: unf lv.simps ih)
    also have "\<dots> = sum + CELL_BASE * lv (tl ds) + CELL_BASE * lv (tl os)"
      by (simp add: algebra_simps)
    also have "\<dots> = lv ds + lv os + carry"
      using dv ov by (simp add: sum0_def)
    finally show ?thesis .
  qed
qed

lemma add_abs_loop_nonempty: "ds \<noteq> [] \<Longrightarrow> add_abs_loop ds os carry \<noteq> []"
  by (subst add_abs_loop.simps) (simp add: Let_def)

lemma lv_resize: "length ds \<le> n \<Longrightarrow> lv (resize ds n) = lv ds"
  by (simp add: resize_def lv_append)

lemma length_resize [simp]: "length (resize ds n) = n"
  by (simp add: resize_def)

lemma add_abs_correct:
  assumes "m_digits x \<noteq> []"
  shows "BigInteger_inv (add_abs x other)"
    and "lv (m_digits (add_abs x other)) = lv (m_digits x) + lv (m_digits other)"
    and "m_negative (add_abs x other) 
           = (m_negative x \<and> lv (m_digits x) + lv (m_digits other) \<noteq> 0)"
proof -
  define n where "n = max (length (m_digits other)) (length (m_digits x))"
  define r where "r = add_abs_loop (resize (m_digits x) n) (m_digits other) 0"
  have e: "add_abs x other = remove_leading_zeroes (x\<lparr>m_digits := r\<rparr>)"
    by (simp add: add_abs_def Let_def n_def r_def)
  have "n \<noteq> 0" using assms by (simp add: n_def)
  then have "resize (m_digits x) n \<noteq> []" by (metis length_resize length_0_conv)
  then have ne: "r \<noteq> []" unfolding r_def by (rule add_abs_loop_nonempty)
  have ok: "limbs_ok r" unfolding r_def by (rule add_abs_loop_limbs_ok)
  have v: "lv r = lv (m_digits x) + lv (m_digits other)"
    unfolding r_def by (simp add: add_abs_loop_lv lv_resize n_def)
  show "BigInteger_inv (add_abs x other)"
    unfolding e using ne ok by (intro rlz_inv) simp_all
  show "lv (m_digits (add_abs x other)) = lv (m_digits x) + lv (m_digits other)"
    unfolding e using v by simp
  show "m_negative (add_abs x other) 
           = (m_negative x \<and> lv (m_digits x) + lv (m_digits other) \<noteq> 0)"
    unfolding e using ne v by (simp add: rlz_negative)
qed

subsection \<open>Construction from a machine integer\<close>

lemma BigInteger_int_loop_lv:
  "lv (BigInteger_int_loop num ds) = lv ds + CELL_BASE ^ length ds * num"
proof (induction num ds rule: BigInteger_int_loop.induct)
  case (1 num ds)
  show ?case
  proof (cases "num > 0")
    case True
    have "lv (BigInteger_int_loop num ds) 
            = lv (BigInteger_int_loop (num div CELL_BASE) (ds @ [num mod CELL_BASE]))"
      using True by (subst BigInteger_int_loop.simps) simp
    also have "\<dots> = lv (ds @ [num mod CELL_BASE]) 
                       + CELL_BASE ^ length (ds @ [num mod CELL_BASE]) * (num div CELL_BASE)"
      using 1 [OF True] .
    also have "\<dots> = lv ds + (CELL_BASE ^ length ds * (num mod CELL_BASE)
                         + CELL_BASE * (CELL_BASE ^ length ds * (num div CELL_BASE)))"
      by (simp add: lv_append)
    also have "CELL_BASE ^ length ds * (num mod CELL_BASE)
                 + CELL_BASE * (CELL_BASE ^ length ds * (num div CELL_BASE))
               = CELL_BASE ^ length ds * (num mod CELL_BASE + CELL_BASE * (num div CELL_BASE))"
      by (simp only: distrib_left mult.left_commute)
    also have "num mod CELL_BASE + CELL_BASE * (num div CELL_BASE) = num"
      by simp
    finally show ?thesis .
  next
    case False
    then show ?thesis by (subst BigInteger_int_loop.simps) simp
  qed
qed

lemma BigInteger_int_loop_limbs_ok:
  "limbs_ok ds \<Longrightarrow> limbs_ok (BigInteger_int_loop num ds)"
proof (induction num ds rule: BigInteger_int_loop.induct)
  case (1 num ds)
  show ?case
  proof (cases "num > 0")
    case True
    have "limbs_ok (ds @ [num mod CELL_BASE])" using 1(2) by (simp add: CELL_BASE_pos)
    from 1(1) [OF True this] True show ?thesis by (subst BigInteger_int_loop.simps) simp
  next
    case False
    with 1(2) show ?thesis by (subst BigInteger_int_loop.simps) simp
  qed
qed

lemma BigInteger_int_loop_last:
  "num > 0 \<Longrightarrow> BigInteger_int_loop num ds \<noteq> [] \<and> last (BigInteger_int_loop num ds) \<noteq> 0"
proof (induction num ds rule: BigInteger_int_loop.induct)
  case (1 num ds)
  have unf: "BigInteger_int_loop num ds 
               = BigInteger_int_loop (num div CELL_BASE) (ds @ [num mod CELL_BASE])"
    using 1(2) by (subst BigInteger_int_loop.simps) simp
  show ?case
  proof (cases "num div CELL_BASE > 0")
    case True
    from 1(1) [OF 1(2) True] show ?thesis unfolding unf .
  next
    case False
    then have "num < CELL_BASE" by (simp add: div_eq_0_iff CELL_BASE_def)
    then have "num mod CELL_BASE \<noteq> 0" using 1(2) by simp
    moreover have "BigInteger_int_loop (num div CELL_BASE) (ds @ [num mod CELL_BASE]) 
                     = ds @ [num mod CELL_BASE]"
      using False by (subst BigInteger_int_loop.simps) simp
    ultimately show ?thesis unfolding unf by simp
  qed
qed

lemma BigInteger_int_correct:
  shows BigInteger_int_inv: "BigInteger_inv (BigInteger_int n)"
    and bi_val_BigInteger_int: "bi_val (BigInteger_int n) = n"
proof -
  show "BigInteger_inv (BigInteger_int n)"
  proof (cases "n = 0")
    case True
    then show ?thesis
      by (simp add: BigInteger_int_def BigInteger_inv_def normalized_def CELL_BASE_def)
  next
    case False
    then have p: "nat \<bar>n\<bar> > 0" by simp
    from BigInteger_int_loop_last [OF p, of "[]"] 
    have "normalized (BigInteger_int_loop (nat \<bar>n\<bar>) [])"
      by (simp add: normalized_def BigInteger_int_loop_limbs_ok)
    moreover have "BigInteger_int_loop (nat \<bar>n\<bar>) [] \<noteq> [0]"
      using BigInteger_int_loop_last [OF p, of "[]"] by auto
    ultimately show ?thesis
      using False by (simp add: BigInteger_int_def BigInteger_inv_def)
  qed
  show "bi_val (BigInteger_int n) = n"
    by (simp add: BigInteger_int_def bi_val_def BigInteger_int_loop_lv)
qed

lemma BigInteger_int_small:
  "0 \<le> n \<Longrightarrow> n < int CELL_BASE \<Longrightarrow> BigInteger_int n = \<lparr>m_digits = [nat n], m_negative = False\<rparr>"
  by (simp add: BigInteger_int_def BigInteger_int_loop.simps [of "nat n"] 
      BigInteger_int_loop.simps [of 0] CELL_BASE_def)

subsection \<open>Comparison\<close>

lemma lv_take_Suc: "n < length ds \<Longrightarrow> lv (take (Suc n) ds) = lv (take n ds) + CELL_BASE ^ n * ds ! n"
  by (simp add: take_Suc_conv_app_nth lv_append)

lemma limb_cmp:
  assumes "a < (b::nat)" "u < p"
  shows "u + p * a < v + p * b"
proof -
  from assms(1) have "a + 1 \<le> b" by simp
  then have "p * (a + 1) \<le> p * b" by (rule mult_le_mono2)
  then have "p * a + p \<le> p * b" by (simp add: distrib_left)
  with assms(2) show ?thesis by linarith
qed

lemma less_loop_lv:
  assumes "length ld = length rd" "limbs_ok ld" "limbs_ok rd" "n \<le> length ld"
  shows "less_loop ld rd neg n
           = (if neg then lv (take n rd) < lv (take n ld) else lv (take n ld) < lv (take n rd))"
  using assms(4)
proof (induction n)
  case 0
  then show ?case by simp
next
  case (Suc n)
  then have n: "n < length ld" "n < length rd" "n \<le> length ld" using assms(1) by simp_all
  have l: "lv (take n ld) < CELL_BASE ^ n"
    using lv_lt [OF limbs_ok_take [OF assms(2)], of n] n by simp
  have r: "lv (take n rd) < CELL_BASE ^ n"
    using lv_lt [OF limbs_ok_take [OF assms(3)], of n] n by simp
  show ?case
  proof (cases "ld ! n = rd ! n")
    case True
    then show ?thesis using Suc.IH [OF n(3)] n by (simp add: lv_take_Suc)
  next
    case False
    show ?thesis
    proof (cases "ld ! n < rd ! n")
      case True
      from limb_cmp [OF True l] 
      have "lv (take (Suc n) ld) < lv (take (Suc n) rd)" using n by (simp add: lv_take_Suc)
      with True False show ?thesis by (simp add: Let_def)
    next
      case ge: False
      with False have "rd ! n < ld ! n" by simp
      from limb_cmp [OF this r]
      have "lv (take (Suc n) rd) < lv (take (Suc n) ld)" using n by (simp add: lv_take_Suc)
      with ge False show ?thesis by (simp add: Let_def)
    qed
  qed
qed

lemma operator_less_same_sign:
  assumes "normalized (m_digits x)" "normalized (m_digits y)" "m_negative x = m_negative y"
  shows "operator_less x y
           = (if m_negative x then lv (m_digits y) < lv (m_digits x)
              else lv (m_digits x) < lv (m_digits y))"
proof (cases "length (m_digits x) = length (m_digits y)")
  case True
  have "less_loop (m_digits x) (m_digits y) (m_negative x) (length (m_digits x))
          = (if m_negative x then lv (take (length (m_digits x)) (m_digits y)) < lv (take (length (m_digits x)) (m_digits x))
             else lv (take (length (m_digits x)) (m_digits x)) < lv (take (length (m_digits x)) (m_digits y)))"
    using assms True by (intro less_loop_lv) (simp_all add: normalized_def)
  then show ?thesis using True assms(3) by (simp add: operator_less_def)
next
  case False
  show ?thesis
  proof (cases "length (m_digits x) < length (m_digits y)")
    case True
    from normalized_length_mono [OF assms(1,2) True] True False assms(3)
    show ?thesis by (simp add: operator_less_def Let_def)
  next
    case ge: False
    with False have "length (m_digits y) < length (m_digits x)" by simp
    from normalized_length_mono [OF assms(2,1) this] ge False assms(3)
    show ?thesis by (simp add: operator_less_def Let_def)
  qed
qed

lemma operator_less_abs:
  "normalized (m_digits x) \<Longrightarrow> normalized (m_digits y) \<Longrightarrow>
   operator_less (abs_bi x) (abs_bi y) = (lv (m_digits x) < lv (m_digits y))"
  using operator_less_same_sign [of "abs_bi x" "abs_bi y"] by (simp add: abs_bi_def)

lemma operator_less_correct:
  assumes "BigInteger_inv x" "BigInteger_inv y"
  shows "operator_less x y = (bi_val x < bi_val y)"
proof -
  from assms have nx: "normalized (m_digits x)" and ny: "normalized (m_digits y)"
    by (simp_all add: BigInteger_inv_def)
  have zx: "m_negative x \<Longrightarrow> lv (m_digits x) \<noteq> 0"
    using assms(1) normalized_zero [OF nx] by (auto simp: BigInteger_inv_def)
  have zy: "m_negative y \<Longrightarrow> lv (m_digits y) \<noteq> 0"
    using assms(2) normalized_zero [OF ny] by (auto simp: BigInteger_inv_def)
  show ?thesis
  proof (cases "m_negative x = m_negative y")
    case True
    then show ?thesis 
      using operator_less_same_sign [OF nx ny True] by (simp add: bi_val_def)
  next
    case False
    then show ?thesis using zx zy by (auto simp: operator_less_def bi_val_def)
  qed
qed

lemma operator_le_correct:
  "BigInteger_inv x \<Longrightarrow> BigInteger_inv y \<Longrightarrow> operator_le x y = (bi_val x \<le> bi_val y)"
  by (auto simp: operator_le_def operator_gt_def operator_less_correct)

lemma operator_eq_iff: "operator_eq x y = (x = y)"
  by (auto simp: operator_eq_def)

lemma operator_eq_correct:
  "BigInteger_inv x \<Longrightarrow> BigInteger_inv y \<Longrightarrow> operator_eq x y = (bi_val x = bi_val y)"
  using bi_val_inj [of x y] by (auto simp: operator_eq_iff)

subsection \<open>Magnitude subtraction\<close>

lemma lv_take_drop: "lv ds = lv (take i ds) + CELL_BASE ^ i * lv (drop i ds)"
proof -
  have "lv (take i ds @ drop i ds) = lv (take i ds) + CELL_BASE ^ length (take i ds) * lv (drop i ds)"
    by (rule lv_append)
  moreover have "CELL_BASE ^ length (take i ds) * lv (drop i ds) = CELL_BASE ^ i * lv (drop i ds)"
    by (cases "i \<le> length ds") (simp_all add: min_def)
  ultimately show ?thesis by simp
qed

lemma lv_drop_Suc: "i < length ds \<Longrightarrow> lv (drop i ds) = ds ! i + CELL_BASE * lv (drop (Suc i) ds)"
  by (simp add: Cons_nth_drop_Suc [symmetric])

lemma lv_drop_Suc_default:
  "lv (drop i ds) = (if i < length ds then ds ! i else 0) + CELL_BASE * lv (drop (Suc i) ds)"
  by (simp add: lv_drop_Suc)

lemma lv_update:
  assumes "i < length ds"
  shows "lv (ds[i := v]) + CELL_BASE ^ i * ds ! i = lv ds + CELL_BASE ^ i * v"
proof -
  have a: "lv ds = lv (take i ds) + CELL_BASE ^ i * (ds ! i + CELL_BASE * lv (drop (Suc i) ds))"
    using lv_take_drop [of ds i] assms by (simp add: lv_drop_Suc)
  have "lv (ds[i := v]) = lv (take i (ds[i := v])) 
          + CELL_BASE ^ i * ((ds[i := v]) ! i + CELL_BASE * lv (drop (Suc i) (ds[i := v])))"
    using lv_take_drop [of "ds[i := v]" i] assms by (simp add: lv_drop_Suc)
  then have b: "lv (ds[i := v]) = lv (take i ds) + CELL_BASE ^ i * (v + CELL_BASE * lv (drop (Suc i) ds))"
    using assms by simp
  show ?thesis unfolding a b by (simp add: algebra_simps)
qed

lemma sub_abs_loop_step:
  "i < length (m_digits x) \<Longrightarrow>
   sub_abs_loop x os borrow i =
     sub_abs_loop
       (remove_leading_zeroes
          (x\<lparr>m_digits := (m_digits x)
                [i := nat ((if int (m_digits x ! i) - int borrow - int (if i < length os then os ! i else 0) < 0
                            then int (m_digits x ! i) - int borrow - int (if i < length os then os ! i else 0) + int CELL_BASE
                            else int (m_digits x ! i) - int borrow - int (if i < length os then os ! i else 0)) mod 2 ^ 32)]\<rparr>))
       os
       (if int (m_digits x ! i) - int borrow - int (if i < length os then os ! i else 0) < 0 then 1 else 0)
       (i + 1)"
  by (subst sub_abs_loop.simps) (simp add: Let_def)

lemma sub_abs_loop_done: "\<not> i < length (m_digits x) \<Longrightarrow> sub_abs_loop x os borrow i = x"
  by (subst sub_abs_loop.simps) simp

lemma sub_abs_loop_correct:
  assumes "normalized (m_digits x)" "limbs_ok os" "i < length (m_digits x)" "borrow \<le> 1"
    and "lv (drop i os) + borrow \<le> lv (drop i (m_digits x))"
  shows "normalized (m_digits (sub_abs_loop x os borrow i))
       \<and> lv (m_digits (sub_abs_loop x os borrow i)) + CELL_BASE ^ i * (lv (drop i os) + borrow)
           = lv (m_digits x)
       \<and> m_negative (sub_abs_loop x os borrow i)
           = (m_negative x \<and> lv (m_digits (sub_abs_loop x os borrow i)) \<noteq> 0)"
  using assms
proof (induction "length (m_digits x) - i" arbitrary: x borrow i)
  case 0
  then show ?case by simp
next
  case (Suc k)
  define xd where "xd = m_digits x"
  define c where "c = (if i < length os then os ! i else 0)"
  define diff where "diff = int (xd ! i) - int borrow - int c"
  define d' where "d' = (if diff < 0 then diff + int CELL_BASE else diff)"
  define borrow' :: nat where "borrow' = (if diff < 0 then 1 else 0)"
  define x' where "x' = x\<lparr>m_digits := xd[i := nat (d' mod 2 ^ 32)]\<rparr>"
  have i: "i < length xd" using Suc.prems(3) by (simp add: xd_def)
  have okx: "limbs_ok xd" and nex: "xd \<noteq> []" 
    using Suc.prems(1) by (simp_all add: normalized_def xd_def)
  have xi: "xd ! i < CELL_BASE" using okx i by (rule limbs_ok_nth)
  have cB: "c < CELL_BASE"
    using limbs_ok_nth [OF Suc.prems(2), of i] by (simp add: c_def CELL_BASE_pos)
  have step: "sub_abs_loop x os borrow i = sub_abs_loop (remove_leading_zeroes x') os borrow' (i + 1)"
    using sub_abs_loop_step [OF Suc.prems(3), of os borrow]
    by (simp add: x'_def d'_def diff_def c_def borrow'_def xd_def)
  have d'_range: "0 \<le> d'" "d' < int CELL_BASE"
    using xi cB Suc.prems(4) by (auto simp: d'_def diff_def)
  then have "d' mod 2 ^ 32 = d'" by (simp add: CELL_BASE_def)
  then have x'_eq: "x' = x\<lparr>m_digits := xd[i := nat d']\<rparr>" by (simp add: x'_def)
  have d'B: "nat d' < CELL_BASE" using d'_range by simp
  have digit_eq: "int (xd ! i) + int CELL_BASE * int borrow' = d' + int borrow + int c"
    by (simp add: d'_def diff_def borrow'_def)
  have O: "lv (drop i os) = c + CELL_BASE * lv (drop (Suc i) os)"
    unfolding c_def by (rule lv_drop_Suc_default)
  have X: "lv (drop i xd) = xd ! i + CELL_BASE * lv (drop (Suc i) xd)"
    using i by (rule lv_drop_Suc)
  have P5: "c + CELL_BASE * lv (drop (Suc i) os) + borrow \<le> xd ! i + CELL_BASE * lv (drop (Suc i) xd)"
    using Suc.prems(5) O X by (simp add: xd_def)
  have upd: "lv (xd[i := nat d']) + CELL_BASE ^ i * xd ! i = lv xd + CELL_BASE ^ i * nat d'"
    using i by (rule lv_update)
  have okx': "limbs_ok (m_digits x')" 
    unfolding x'_eq using okx d'B by (simp add: limbs_ok_update)
  have nex': "m_digits x' \<noteq> []" unfolding x'_eq using nex by simp
  show ?case
  proof (cases "i + 1 < length xd")
    case True
    then have "xd \<noteq> [0]" by auto
    with Suc.prems(1) have "last xd \<noteq> 0" by (auto simp: normalized_def xd_def)
    moreover have "last (xd[i := nat d']) = last xd"
      using True nex by (simp add: last_conv_nth)
    ultimately have last': "last (m_digits x') \<noteq> 0" by (simp add: x'_eq)
    have id: "remove_leading_zeroes x' = x'" using nex' last' by (rule rlz_id)
    have n': "normalized (m_digits x')" using nex' okx' last' by (simp add: normalized_def)
    have k: "k = length (m_digits x') - (i + 1)" using Suc.hyps(2) by (simp add: x'_eq xd_def)
    have i': "i + 1 < length (m_digits x')" using True by (simp add: x'_eq)
    have b': "borrow' \<le> 1" by (simp add: borrow'_def)
    have dr: "drop (Suc i) (m_digits x') = drop (Suc i) xd" by (simp add: x'_eq)
    have Q1: "lv (drop (i + 1) os) + borrow' \<le> lv (drop (i + 1) (m_digits x'))"
    proof (cases "diff < 0")
      case True
      then have "int (xd ! i) < int borrow + int c" by (simp add: diff_def)
      then have "xd ! i < borrow + c" by linarith
      with P5 have "CELL_BASE * lv (drop (Suc i) os) < CELL_BASE * lv (drop (Suc i) xd)"
        by linarith
      then have "lv (drop (Suc i) os) < lv (drop (Suc i) xd)" by simp
      then show ?thesis using True by (simp add: dr borrow'_def)
    next
      case False
      have "CELL_BASE * lv (drop (Suc i) os) < CELL_BASE * (lv (drop (Suc i) xd) + 1)"
        using P5 xi by (simp add: distrib_left)
      then have "lv (drop (Suc i) os) < lv (drop (Suc i) xd) + 1" 
        using mult_less_cancel1 by blast
      then show ?thesis using False by (simp add: dr borrow'_def)
    qed
    let ?r = "sub_abs_loop x' os borrow' (i + 1)"
    from Suc.hyps(1) [OF k n' Suc.prems(2) i' b' Q1]
    have ih1: "normalized (m_digits ?r)"
      and ih2: "lv (m_digits ?r) + CELL_BASE ^ (i + 1) * (lv (drop (i + 1) os) + borrow') = lv (m_digits x')"
      and ih3: "m_negative ?r = (m_negative x' \<and> lv (m_digits ?r) \<noteq> 0)"
      by blast+
    have r: "sub_abs_loop x os borrow i = ?r" using step id by simp
    define P where "P = CELL_BASE ^ i"
    define A1 where "A1 = P * (CELL_BASE * lv (drop (Suc i) os))"
    define A2 where "A2 = P * (CELL_BASE * borrow')"
    define A3 where "A3 = P * xd ! i"
    define A4 where "A4 = P * nat d'"
    define A5 where "A5 = P * borrow"
    define A6 where "A6 = P * c"
    have e1: "lv (m_digits ?r) + (A1 + A2) = lv (xd[i := nat d'])"
      using ih2 unfolding A1_def A2_def P_def 
      by (simp add: x'_eq algebra_simps)
    have "int (xd ! i + CELL_BASE * borrow') = int (nat d' + borrow + c)"
      using digit_eq d'_range by simp
    then have "xd ! i + CELL_BASE * borrow' = nat d' + borrow + c"
      by (simp only: of_nat_eq_iff)
    then have "P * (xd ! i + CELL_BASE * borrow') = P * (nat d' + borrow + c)" by simp
    then have e2: "A3 + A2 = A4 + A5 + A6"
      unfolding A2_def A3_def A4_def A5_def A6_def by (simp only: distrib_left)
    have e3: "lv (xd[i := nat d']) + A3 = lv xd + A4"
      using upd unfolding A3_def A4_def P_def .
    have "lv (m_digits ?r) + (A6 + A1 + A5) = lv xd"
      using e1 e2 e3 by linarith
    then have "lv (m_digits ?r) + CELL_BASE ^ i * (lv (drop i os) + borrow) = lv xd"
      unfolding O A1_def A5_def A6_def P_def by (simp only: distrib_left)
    with ih1 ih3 show ?thesis unfolding r by (simp add: x'_eq xd_def)
  next
    case False
    with i have last_i: "i + 1 = length xd" by simp
    then have "drop (Suc i) xd = []" by simp
    with P5 have p5: "c + CELL_BASE * lv (drop (Suc i) os) + borrow \<le> xd ! i" by simp
    have O0: "lv (drop (Suc i) os) = 0"
    proof (rule ccontr)
      assume "lv (drop (Suc i) os) \<noteq> 0"
      then have "1 \<le> lv (drop (Suc i) os)" by simp
      then have "CELL_BASE * 1 \<le> CELL_BASE * lv (drop (Suc i) os)" by (rule mult_le_mono2)
      with p5 xi show False by simp
    qed
    with p5 have dge: "0 \<le> diff" by (simp add: diff_def)
    then have d'_eq: "d' = diff" and b0: "borrow' = 0" by (simp_all add: d'_def borrow'_def)
    let ?r = "remove_leading_zeroes x'"
    have "length (m_digits ?r) \<le> length (m_digits x')" by (rule length_remove_leading_zeroes)
    then have "\<not> i + 1 < length (m_digits ?r)" using last_i by (simp add: x'_eq)
    then have r: "sub_abs_loop x os borrow i = ?r" 
      unfolding step by (rule sub_abs_loop_done)
    have r1: "normalized (m_digits ?r)" using nex' okx' by (rule rlz_normalized)
    have "nat d' + borrow + c = xd ! i" using dge d'_eq by (simp add: diff_def)
    then have "CELL_BASE ^ i * nat d' + CELL_BASE ^ i * (c + borrow) = CELL_BASE ^ i * xd ! i"
      by (simp add: distrib_left [symmetric] add.assoc add.commute)
    with upd have "lv (xd[i := nat d']) + CELL_BASE ^ i * (c + borrow) = lv xd" by linarith
    then have r2: "lv (m_digits ?r) + CELL_BASE ^ i * (lv (drop i os) + borrow) = lv xd"
      unfolding O O0 by (simp add: x'_eq)
    have r3: "m_negative ?r = (m_negative x \<and> lv (m_digits ?r) \<noteq> 0)"
      using rlz_negative [OF nex'] by (simp add: x'_eq)
    from r1 r2 r3 show ?thesis unfolding r by (simp add: xd_def)
  qed
qed

lemma sub_abs_correct:
  assumes "normalized (m_digits x)" "normalized (m_digits other)"
    and "lv (m_digits other) \<le> lv (m_digits x)"
  shows "normalized (m_digits (sub_abs x other))"
    and "lv (m_digits (sub_abs x other)) + lv (m_digits other) = lv (m_digits x)"
    and "m_negative (sub_abs x other) = (m_negative x \<and> lv (m_digits (sub_abs x other)) \<noteq> 0)"
proof -
  have a: "limbs_ok (m_digits other)" "0 < length (m_digits x)"
    using assms by (simp_all add: normalized_def)
  have b: "lv (drop 0 (m_digits other)) + 0 \<le> lv (drop 0 (m_digits x))"
    using assms(3) by simp
  from sub_abs_loop_correct [OF assms(1) a(1) a(2) _ b]
  show "normalized (m_digits (sub_abs x other))"
    and "lv (m_digits (sub_abs x other)) + lv (m_digits other) = lv (m_digits x)"
    and "m_negative (sub_abs x other) = (m_negative x \<and> lv (m_digits (sub_abs x other)) \<noteq> 0)"
    by (simp_all add: sub_abs_def)
qed

subsection \<open>Signed addition and subtraction\<close>

lemma is_zero_iff: "is_zero x = (m_digits x = [0])"
proof (cases "m_digits x")
  case Nil
  then show ?thesis by (simp add: is_zero_def)
next
  case (Cons d ds)
  then show ?thesis by (cases ds) (simp_all add: is_zero_def)
qed

lemma inv_normalized: "BigInteger_inv x \<Longrightarrow> normalized (m_digits x)"
  by (simp add: BigInteger_inv_def)

lemma inv_I:
  "normalized (m_digits x) \<Longrightarrow> (m_negative x \<Longrightarrow> lv (m_digits x) \<noteq> 0) \<Longrightarrow> BigInteger_inv x"
  by (auto simp: BigInteger_inv_def)

lemma inv_negative_nonzero:
  "BigInteger_inv x \<Longrightarrow> m_negative x \<Longrightarrow> lv (m_digits x) \<noteq> 0"
  using normalized_zero [of "m_digits x"] by (auto simp: BigInteger_inv_def)

lemma operator_plus_correct:
  assumes "normalized (m_digits x)" "normalized (m_digits other)"
  shows operator_plus_inv: "BigInteger_inv (operator_plus x other)"
    and bi_val_operator_plus: "bi_val (operator_plus x other) = bi_val x + bi_val other"
proof -
  have nex: "m_digits x \<noteq> []" using assms(1) by (simp add: normalized_def)
  have less: "operator_less (abs_bi x) (abs_bi other) = (lv (m_digits x) < lv (m_digits other))"
    using assms by (rule operator_less_abs)
  consider (same) "m_negative x = m_negative other"
    | (lt) "m_negative x \<noteq> m_negative other" "lv (m_digits x) < lv (m_digits other)"
    | (ge) "m_negative x \<noteq> m_negative other" "lv (m_digits other) \<le> lv (m_digits x)"
    by linarith
  then have "BigInteger_inv (operator_plus x other) 
             \<and> bi_val (operator_plus x other) = bi_val x + bi_val other"
  proof cases
    case same
    then have e: "operator_plus x other = add_abs x other" by (simp add: operator_plus_def)
    show ?thesis
      unfolding e using add_abs_correct [OF nex, of other] same
      by (auto simp: bi_val_def)
  next
    case lt
    define temp where "temp = sub_abs other x"
    have e: "operator_plus x other = temp\<lparr>m_negative := m_negative other\<rparr>"
      using lt less by (simp add: operator_plus_def temp_def)
    have le: "lv (m_digits x) \<le> lv (m_digits other)" using lt(2) by simp
    from sub_abs_correct [OF assms(2,1) le]
    have t: "normalized (m_digits temp)" "lv (m_digits temp) + lv (m_digits x) = lv (m_digits other)"
      by (simp_all add: temp_def)
    with lt(2) have nz: "lv (m_digits temp) \<noteq> 0" by linarith
    have "BigInteger_inv (temp\<lparr>m_negative := m_negative other\<rparr>)"
      using t(1) nz by (intro inv_I) simp_all
    moreover have "bi_val (temp\<lparr>m_negative := m_negative other\<rparr>) = bi_val x + bi_val other"
      using t(2) lt(1) by (auto simp: bi_val_def)
    ultimately show ?thesis unfolding e by simp
  next
    case ge
    have e: "operator_plus x other = sub_abs x other"
      using ge less by (simp add: operator_plus_def)
    from sub_abs_correct [OF assms(1,2) ge(2)]
    have t: "normalized (m_digits (sub_abs x other))"
      "lv (m_digits (sub_abs x other)) + lv (m_digits other) = lv (m_digits x)"
      "m_negative (sub_abs x other) = (m_negative x \<and> lv (m_digits (sub_abs x other)) \<noteq> 0)"
      by simp_all
    have "BigInteger_inv (sub_abs x other)"
      using t(1,3) by (intro inv_I) simp_all
    moreover have "bi_val (sub_abs x other) = bi_val x + bi_val other"
      using t(2,3) ge(1) by (auto simp: bi_val_def)
    ultimately show ?thesis unfolding e by simp
  qed
  then show "BigInteger_inv (operator_plus x other)"
    and "bi_val (operator_plus x other) = bi_val x + bi_val other"
    by simp_all
qed

lemma operator_minus_correct:
  assumes "normalized (m_digits x)" "normalized (m_digits other)"
  shows operator_minus_inv: "BigInteger_inv (operator_minus x other)"
    and bi_val_operator_minus: "bi_val (operator_minus x other) = bi_val x - bi_val other"
proof -
  define x1 where "x1 = (if operator_eq other x then x\<lparr>m_digits := [0]\<rparr>
                else (let x2 = x\<lparr>m_negative := \<not> m_negative x\<rparr>;
                          x3 = operator_plus x2 other
                      in x3\<lparr>m_negative := \<not> m_negative x3\<rparr>))"
  have e: "operator_minus x other = (if is_zero x1 then x1\<lparr>m_negative := False\<rparr> else x1)"
    by (simp add: operator_minus_def x1_def)
  have x1: "normalized (m_digits x1) \<and> 
            (if m_negative x1 then - int (lv (m_digits x1)) else int (lv (m_digits x1)))
               = bi_val x - bi_val other"
  proof (cases "operator_eq other x")
    case True
    then have "other = x" by (simp add: operator_eq_iff)
    then show ?thesis using True by (simp add: x1_def normalized_def CELL_BASE_def)
  next
    case False
    define x2 where "x2 = x\<lparr>m_negative := \<not> m_negative x\<rparr>"
    define x3 where "x3 = operator_plus x2 other"
    have n2: "normalized (m_digits x2)" using assms(1) by (simp add: x2_def)
    have v2: "bi_val x2 = - bi_val x" by (simp add: x2_def bi_val_def)
    have "BigInteger_inv x3" "bi_val x3 = bi_val x2 + bi_val other"
      unfolding x3_def using n2 assms(2) by (rule operator_plus_correct)+
    then have "normalized (m_digits x3)" "bi_val x3 = bi_val other - bi_val x"
      using v2 by (simp_all add: inv_normalized)
    moreover have "x1 = x3\<lparr>m_negative := \<not> m_negative x3\<rparr>"
      using False by (simp add: x1_def x2_def x3_def Let_def)
    ultimately show ?thesis by (auto simp: bi_val_def)
  qed
  show "BigInteger_inv (operator_minus x other)"
  proof (cases "is_zero x1")
    case True
    then show ?thesis unfolding e using x1 by (simp add: is_zero_iff BigInteger_inv_def)
  next
    case False
    then have "lv (m_digits x1) \<noteq> 0"
      using x1 normalized_zero [of "m_digits x1"] by (simp add: is_zero_iff)
    then show ?thesis unfolding e using x1 False by (intro inv_I) simp_all
  qed
  show "bi_val (operator_minus x other) = bi_val x - bi_val other"
  proof (cases "is_zero x1")
    case True
    then have d: "m_digits x1 = [0]" by (simp add: is_zero_iff)
    have "(if m_negative x1 then - int (lv (m_digits x1)) else int (lv (m_digits x1))) = 0"
      by (simp add: d)
    with x1 have "bi_val x - bi_val other = 0" by simp
    then show ?thesis unfolding e using True d by (simp add: bi_val_def)
  next
    case False
    then show ?thesis unfolding e using x1 by (simp add: bi_val_def)
  qed
qed

subsection \<open>Multiplication\<close>

lemma mul_inner_done:
  "\<not> (j < length os \<or> carry \<noteq> 0) \<Longrightarrow> mul_inner res ai os i j carry = Some res"
  by (subst mul_inner.simps) simp

lemma mul_inner_step:
  "j < length os \<or> carry \<noteq> 0 \<Longrightarrow> i + j < length res \<Longrightarrow>
   mul_inner res ai os i j carry =
     mul_inner
       (res[i + j := ((res ! (i + j) + carry + ai * (if j < length os then os ! j else 0)) mod 2 ^ 64) mod CELL_BASE])
       ai os i (j + 1)
       (((res ! (i + j) + carry + ai * (if j < length os then os ! j else 0)) mod 2 ^ 64) div CELL_BASE)"
  by (subst mul_inner.simps) (simp add: Let_def)

lemma limb_product_bound:
  assumes "r < CELL_BASE" "c < CELL_BASE" "a < CELL_BASE" "b < CELL_BASE"
  shows "r + c + a * b < CELL_BASE * CELL_BASE"
proof -
  have "a * b \<le> (CELL_BASE - 1) * (CELL_BASE - 1)"
    using assms(3,4) by (intro mult_mono) simp_all
  moreover have "r + c \<le> 2 * (CELL_BASE - 1)" using assms(1,2) by simp
  ultimately have "r + c + a * b \<le> 2 * (CELL_BASE - 1) + (CELL_BASE - 1) * (CELL_BASE - 1)"
    by linarith
  also have "\<dots> < CELL_BASE * CELL_BASE" by (simp add: CELL_BASE_def)
  finally show ?thesis .
qed

lemma mul_inner_correct:
  assumes "ai < CELL_BASE" "limbs_ok os"
    and "limbs_ok res" "i + length os < length res"
    and "\<forall>k<length res. i + length os \<le> k \<longrightarrow> res ! k = 0"
    and "j \<le> length os" "carry < CELL_BASE"
  shows "\<exists>res'. mul_inner res ai os i j carry = Some res'
           \<and> length res' = length res \<and> limbs_ok res'
           \<and> lv res' = lv res + CELL_BASE ^ (i + j) * (carry + ai * lv (drop j os))
           \<and> (\<forall>k<length res. i + length os < k \<longrightarrow> res' ! k = 0)"
  using assms(3-7)
proof (induction "length os - j" arbitrary: res j carry)
  case 0
  then have j: "j = length os" by simp
  show ?case
  proof (cases "carry = 0")
    case True
    then have "mul_inner res ai os i j carry = Some res"
      using j by (simp add: mul_inner_done)
    then show ?thesis using 0 True j by simp
  next
    case False
    have ij: "i + j < length res" using j "0.prems"(2) by simp
    have z: "res ! (i + j) = 0" using "0.prems"(3) ij j by simp
    have cm: "carry mod 2 ^ 64 = carry" using "0.prems"(5) by (simp add: CELL_BASE_def)
    have cB: "carry mod CELL_BASE = carry" "carry div CELL_BASE = 0"
      using "0.prems"(5) by simp_all
    have "mul_inner res ai os i j carry = mul_inner (res[i + j := carry]) ai os i (j + 1) 0"
      using mul_inner_step [of j os carry i res ai] False ij z j cm cB by simp
    also have "\<dots> = Some (res[i + j := carry])"
      using j by (simp add: mul_inner_done)
    finally have r: "mul_inner res ai os i j carry = Some (res[i + j := carry])" .
    have v: "lv (res[i + j := carry]) = lv res + CELL_BASE ^ (i + j) * carry"
      using lv_update [OF ij, of carry] z by simp
    have zz: "\<forall>k<length res. i + length os < k \<longrightarrow> res[i + j := carry] ! k = 0"
      using "0.prems"(3) j by simp
    show ?thesis
      unfolding r using v zz "0.prems"(1,5) j by (simp add: limbs_ok_update)
  qed
next
  case (Suc n)
  then have j: "j < length os" by simp
  then have ij: "i + j < length res" using Suc.prems(2) by simp
  define product where "product = res ! (i + j) + carry + ai * os ! j"
  have rB: "res ! (i + j) < CELL_BASE" using Suc.prems(1) ij by (rule limbs_ok_nth)
  have oB: "os ! j < CELL_BASE" using assms(2) j by (rule limbs_ok_nth)
  have pB: "product < CELL_BASE * CELL_BASE"
    unfolding product_def using rB Suc.prems(5) assms(1) oB by (rule limb_product_bound)
  then have pm: "product mod 2 ^ 64 = product" by (simp add: CELL_BASE_def)
  define res1 where "res1 = res[i + j := product mod CELL_BASE]"
  define carry1 where "carry1 = product div CELL_BASE"
  have step: "mul_inner res ai os i j carry = mul_inner res1 ai os i (j + 1) carry1"
    using mul_inner_step [of j os carry i res ai] j ij pm
    by (simp add: product_def res1_def carry1_def)
  have c1: "carry1 < CELL_BASE"
    unfolding carry1_def using pB by (simp add: less_mult_imp_div_less)
  have ok1: "limbs_ok res1"
    unfolding res1_def using Suc.prems(1) CELL_BASE_pos by (simp add: limbs_ok_update)
  have len1: "length res1 = length res" by (simp add: res1_def)
  have z1: "\<forall>k<length res1. i + length os \<le> k \<longrightarrow> res1 ! k = 0"
    using Suc.prems(3) j by (simp add: res1_def)
  have n: "n = length os - (j + 1)" using Suc.hyps(2) by simp
  have j1: "j + 1 \<le> length os" using j by simp
  have room1: "i + length os < length res1" using Suc.prems(2) len1 by simp
  from Suc.hyps(1) [OF n ok1 room1 z1 j1 c1]
  obtain res' where r: "mul_inner res1 ai os i (j + 1) carry1 = Some res'"
    and l': "length res' = length res1" and ok': "limbs_ok res'"
    and v': "lv res' = lv res1 + CELL_BASE ^ (i + (j + 1)) * (carry1 + ai * lv (drop (j + 1) os))"
    and z': "\<forall>k<length res1. i + length os < k \<longrightarrow> res' ! k = 0"
    by blast
  define P where "P = CELL_BASE ^ (i + j)"
  define T where "T = ai * lv (drop (Suc j) os)"
  have u: "lv res1 + P * res ! (i + j) = lv res + P * (product mod CELL_BASE)"
    unfolding res1_def P_def using ij by (rule lv_update)
  have v1: "lv res' = lv res1 + P * (CELL_BASE * carry1) + P * (CELL_BASE * T)"
    using v' by (simp add: P_def T_def algebra_simps)
  have "product mod CELL_BASE + CELL_BASE * carry1 = res ! (i + j) + carry + ai * os ! j"
    unfolding carry1_def by (simp add: product_def)
  then have "P * (product mod CELL_BASE + CELL_BASE * carry1) = P * (res ! (i + j) + carry + ai * os ! j)"
    by simp
  then have d: "P * (product mod CELL_BASE) + P * (CELL_BASE * carry1) 
                  = P * res ! (i + j) + P * carry + P * (ai * os ! j)"
    by (simp only: distrib_left)
  have "lv res' = lv res + P * carry + P * (ai * os ! j) + P * (CELL_BASE * T)"
    using u v1 d by linarith
  also have "\<dots> = lv res + P * (carry + (ai * os ! j + CELL_BASE * T))"
    by (simp only: distrib_left add.assoc)
  also have "ai * os ! j + CELL_BASE * T = ai * lv (drop j os)"
    using j by (simp add: T_def lv_drop_Suc algebra_simps)
  finally have "lv res' = lv res + CELL_BASE ^ (i + j) * (carry + ai * lv (drop j os))"
    by (simp only: P_def)
  then show ?case
    unfolding step r using l' ok' z' len1 by simp
qed

lemma mul_outer_done: "\<not> i < length ds \<Longrightarrow> mul_outer ds os res i = Some res"
  by (subst mul_outer.simps) simp

lemma mul_outer_step:
  "i < length ds \<Longrightarrow> mul_inner res (ds ! i) os i 0 0 = Some res' \<Longrightarrow>
   mul_outer ds os res i = mul_outer ds os res' (i + 1)"
  by (subst mul_outer.simps) simp

lemma mul_outer_correct:
  assumes "limbs_ok ds" "limbs_ok os"
    and "limbs_ok res" "length res = length ds + length os + 1"
    and "\<forall>k<length res. i + length os \<le> k \<longrightarrow> res ! k = 0"
  shows "\<exists>res'. mul_outer ds os res i = Some res'
           \<and> length res' = length res \<and> limbs_ok res'
           \<and> lv res' = lv res + CELL_BASE ^ i * (lv (drop i ds) * lv os)"
  using assms(3-5)
proof (induction "length ds - i" arbitrary: res i)
  case 0
  then have "mul_outer ds os res i = Some res" by (simp add: mul_outer_done)
  then show ?case using 0 by simp
next
  case (Suc n)
  then have i: "i < length ds" by simp
  have ai: "ds ! i < CELL_BASE" using assms(1) i by (rule limbs_ok_nth)
  have room: "i + length os < length res" using i Suc.prems(2) by simp
  from mul_inner_correct [OF ai assms(2) Suc.prems(1) room Suc.prems(3), of 0 0]
  obtain res1 where r1: "mul_inner res (ds ! i) os i 0 0 = Some res1"
    and l1: "length res1 = length res" and ok1: "limbs_ok res1"
    and v1: "lv res1 = lv res + CELL_BASE ^ i * (ds ! i * lv os)"
    and z1: "\<forall>k<length res. i + length os < k \<longrightarrow> res1 ! k = 0"
    by (auto simp: CELL_BASE_pos)
  have step: "mul_outer ds os res i = mul_outer ds os res1 (i + 1)"
    using i r1 by (rule mul_outer_step)
  have n: "n = length ds - (i + 1)" using Suc.hyps(2) by simp
  have len1: "length res1 = length ds + length os + 1" using l1 Suc.prems(2) by simp
  have z1': "\<forall>k<length res1. (i + 1) + length os \<le> k \<longrightarrow> res1 ! k = 0"
    using z1 l1 by simp
  from Suc.hyps(1) [OF n ok1 len1 z1']
  obtain res' where r: "mul_outer ds os res1 (i + 1) = Some res'"
    and l': "length res' = length res1" and ok': "limbs_ok res'"
    and v': "lv res' = lv res1 + CELL_BASE ^ (i + 1) * (lv (drop (i + 1) ds) * lv os)"
    by blast
  have "lv res' = lv res + CELL_BASE ^ i * ((ds ! i + CELL_BASE * lv (drop (Suc i) ds)) * lv os)"
    using v' v1 by (simp add: algebra_simps)
  then have "lv res' = lv res + CELL_BASE ^ i * (lv (drop i ds) * lv os)"
    using i by (simp add: lv_drop_Suc)
  then show ?case unfolding step r using l' ok' l1 by simp
qed

lemma resize_zero: "resize [0] (Suc n) = replicate (Suc n) 0"
  by (simp add: resize_def)

lemma operator_mul_correct:
  assumes "limbs_ok (m_digits x)" "limbs_ok (m_digits other)"
  shows "\<exists>r. operator_mul x other = Some r \<and> BigInteger_inv r
              \<and> bi_val r = bi_val x * bi_val other"
proof -
  define L where "L = length (m_digits x) + length (m_digits other) + 1"
  define res0 where "res0 = resize [0] L"
  have res0: "res0 = replicate L 0" unfolding res0_def L_def using resize_zero by simp
  have a: "limbs_ok res0" "length res0 = length (m_digits x) + length (m_digits other) + 1"
    "\<forall>k<length res0. 0 + length (m_digits other) \<le> k \<longrightarrow> res0 ! k = 0"
  proof -
    show "limbs_ok res0" by (simp add: res0)
    show "length res0 = length (m_digits x) + length (m_digits other) + 1"
      by (simp add: res0 L_def)
    show "\<forall>k<length res0. 0 + length (m_digits other) \<le> k \<longrightarrow> res0 ! k = 0"
      by (simp add: res0)
  qed
  from mul_outer_correct [OF assms a]
  obtain rd where r: "mul_outer (m_digits x) (m_digits other) res0 0 = Some rd"
    and l: "length rd = length res0" and ok: "limbs_ok rd"
    and v: "lv rd = lv (m_digits x) * lv (m_digits other)"
    by (auto simp: res0)
  define y where "y = \<lparr>m_digits = rd, m_negative = (m_negative x \<noteq> m_negative other)\<rparr>"
  have e: "operator_mul x other = Some (remove_leading_zeroes y)"
    using r by (simp add: operator_mul_def res0_def L_def y_def)
  have ne: "m_digits y \<noteq> []" using l a(2) by (auto simp: y_def)
  have "BigInteger_inv (remove_leading_zeroes y)"
    using ne ok by (intro rlz_inv) (simp_all add: y_def)
  moreover have "bi_val (remove_leading_zeroes y) = bi_val x * bi_val other"
    using bi_val_rlz [OF ne] v by (auto simp: bi_val_def y_def)
  ultimately show ?thesis using e by simp
qed

subsection \<open>Division: the quotient-limb search\<close>

lemma qdigit_iff: "m < CELL_BASE \<Longrightarrow> (bv * m \<le> cv) = (m \<le> qdigit bv cv)"
  by (auto simp: qdigit_def less_eq_div_iff_mult_less_eq mult.commute)

lemma qdigit_lt: "qdigit bv cv < CELL_BASE"
  by (simp add: qdigit_def CELL_BASE_def min_def)

lemma inv_eq_BigInteger_int: "BigInteger_inv x \<Longrightarrow> x = BigInteger_int (bi_val x)"
  by (rule bi_val_inj) (simp_all add: BigInteger_int_correct)

lemma inv_limbs_ok: "BigInteger_inv x \<Longrightarrow> limbs_ok (m_digits x)"
  by (simp add: BigInteger_inv_def normalized_def)

lemma operator_mul_int:
  assumes "limbs_ok (m_digits b)"
  shows "operator_mul b (BigInteger_int v) = Some (BigInteger_int (bi_val b * v))"
proof -
  have "limbs_ok (m_digits (BigInteger_int v))"
    using BigInteger_int_inv by (rule inv_limbs_ok)
  from operator_mul_correct [OF assms this]
  obtain r where r: "operator_mul b (BigInteger_int v) = Some r" "BigInteger_inv r"
    "bi_val r = bi_val b * bi_val (BigInteger_int v)" by blast
  then have "r = BigInteger_int (bi_val b * v)"
    using inv_eq_BigInteger_int [of r] by (simp add: bi_val_BigInteger_int)
  with r(1) show ?thesis by simp
qed

lemma operator_le_int:
  "operator_le (BigInteger_int u) (BigInteger_int v) = (u \<le> v)"
  by (simp add: operator_le_correct BigInteger_int_correct)

lemma div_search_step:
  "left \<le> right \<Longrightarrow> operator_mul b (BigInteger_int ((left + right) div 2)) = Some cur \<Longrightarrow>
   div_search b curValue val left right =
     (if operator_le cur curValue
      then div_search b curValue ((left + right) div 2) ((left + right) div 2 + 1) right
      else div_search b curValue val left ((left + right) div 2 - 1))"
  by (subst div_search.simps) (simp add: Let_def)

lemma div_search_done: "\<not> left \<le> right \<Longrightarrow> div_search b curValue val left right = Some val"
  by (subst div_search.simps) simp

lemma div_search_correct:
  assumes "limbs_ok (m_digits b)" "\<not> m_negative b" "0 \<le> c"
    and "0 \<le> left" "right < int CELL_BASE" "left \<le> right + 1"
    and "left \<le> int (qdigit (lv (m_digits b)) (nat c)) + 1"
    and "int (qdigit (lv (m_digits b)) (nat c)) \<le> right"
    and "val = max (left - 1) 0"
  shows "div_search b (BigInteger_int c) val left right 
           = Some (int (qdigit (lv (m_digits b)) (nat c)))"
  using assms(4-9)
proof (induction "nat (right + 1 - left)" arbitrary: val left right rule: less_induct)
  case less
  define Q where "Q = qdigit (lv (m_digits b)) (nat c)"
  note p = less.prems [folded Q_def]
  show ?case
  proof (cases "left \<le> right")
    case False
    with p have "left = int Q + 1" by linarith
    with p False show ?thesis by (simp add: div_search_done Q_def)
  next
    case True
    define mid where "mid = (left + right) div 2"
    have mid: "left \<le> mid" "mid \<le> right" using True by (simp_all add: mid_def)
    then have m0: "0 \<le> mid" "mid < int CELL_BASE" using p by simp_all
    have bv: "bi_val b = int (lv (m_digits b))" using assms(2) by (simp add: bi_val_def)
    have mul: "operator_mul b (BigInteger_int mid) = Some (BigInteger_int (bi_val b * mid))"
      using assms(1) by (rule operator_mul_int)
    have "(bi_val b * mid \<le> c) = (lv (m_digits b) * nat mid \<le> nat c)"
      using m0(1) assms(3) bv
      by (metis (no_types, opaque_lifting) int_nat_eq nat_le_iff nat_mult_distrib of_nat_0_le_iff 
          of_nat_mult zero_le_mult_iff nat_int)
    also have "\<dots> = (nat mid \<le> Q)"
      unfolding Q_def using m0 by (intro qdigit_iff) simp
    also have "\<dots> = (mid \<le> int Q)" using m0(1) by linarith
    finally have le: "operator_le (BigInteger_int (bi_val b * mid)) (BigInteger_int c) = (mid \<le> int Q)"
      by (simp add: operator_le_int)
    have step: "div_search b (BigInteger_int c) val left right =
                 (if mid \<le> int Q
                  then div_search b (BigInteger_int c) mid (mid + 1) right
                  else div_search b (BigInteger_int c) val left (mid - 1))"
      using div_search_step [OF True mul [unfolded mid_def], of "BigInteger_int c" val] le
      by (simp add: mid_def)
    show ?thesis
    proof (cases "mid \<le> int Q")
      case True
      have "div_search b (BigInteger_int c) mid (mid + 1) right = Some (int Q)"
        unfolding Q_def
        using mid m0 p True by (intro less.hyps) (simp_all add: Q_def)
      with step True show ?thesis by (simp add: Q_def)
    next
      case False
      have "div_search b (BigInteger_int c) val left (mid - 1) = Some (int Q)"
        unfolding Q_def
        using mid m0 p False by (intro less.hyps) (simp_all add: Q_def)
      with step False show ?thesis by (simp add: Q_def)
    qed
  qed
qed

lemma div_search_initial:
  assumes "limbs_ok (m_digits b)" "\<not> m_negative b" "0 \<le> c"
  shows "div_search b (BigInteger_int c) 0 0 (int CELL_BASE - 1) 
           = Some (int (qdigit (lv (m_digits b)) (nat c)))"
  using qdigit_lt [of "lv (m_digits b)" "nat c"]
  by (intro div_search_correct [OF assms]) (simp_all add: CELL_BASE_def)

subsection \<open>Division: the limb loop\<close>

lemma BigInteger_int_nonneg: "0 \<le> c \<Longrightarrow> \<not> m_negative (BigInteger_int c)"
  by (simp add: BigInteger_int_def)

lemma lv_BigInteger_int: "0 \<le> c \<Longrightarrow> int (lv (m_digits (BigInteger_int c))) = c"
  using bi_val_BigInteger_int [of c] by (simp add: bi_val_def BigInteger_int_nonneg)

lemma div_loop_step:
  assumes "limbs_ok (m_digits b)" "\<not> m_negative b" "0 \<le> c" "m_digits a ! iter < CELL_BASE"
  defines "c3 \<equiv> int (m_digits a ! iter) + int CELL_BASE * c"
  defines "v \<equiv> qdigit (lv (m_digits b)) (nat c3)"
  shows "div_loop a b (Suc iter) result (BigInteger_int c) =
           div_loop a b iter
             (if iter < length (m_digits result)
              then result\<lparr>m_digits := (m_digits result)[iter := v]\<rparr>
              else result\<lparr>m_digits := m_digits result @ [v]\<rparr>)
             (BigInteger_int (c3 - int (lv (m_digits b)) * int v))"
proof -
  define cur where "cur = BigInteger_int c"
  have cur_inv: "BigInteger_inv cur" unfolding cur_def by (rule BigInteger_int_inv)
  have cur_pos: "\<not> m_negative cur" unfolding cur_def using assms(3) by (rule BigInteger_int_nonneg)
  have cur_ne: "m_digits cur \<noteq> []" using cur_inv by (simp add: BigInteger_inv_def normalized_def)
  have cur_lv: "int (lv (m_digits cur)) = c" unfolding cur_def using assms(3) by (rule lv_BigInteger_int)
  define c2 where "c2 = cur\<lparr>m_digits := m_digits a ! iter # m_digits cur\<rparr>"
  have c2: "(let c1 = shift_left cur in
             if m_digits c1 = [] then c1\<lparr>m_digits := m_digits c1 @ [m_digits a ! iter]\<rparr>
             else c1\<lparr>m_digits := (m_digits c1)[0 := m_digits a ! iter]\<rparr>) = c2"
    by (simp add: shift_left_def c2_def)
  have c2_ne: "m_digits c2 \<noteq> []" by (simp add: c2_def)
  have c2_ok: "limbs_ok (m_digits c2)"
    using assms(4) inv_limbs_ok [OF cur_inv] by (simp add: c2_def)
  have c3_inv: "BigInteger_inv (remove_leading_zeroes c2)" using c2_ne c2_ok by (rule rlz_inv)
  have "bi_val (remove_leading_zeroes c2) = bi_val c2" using c2_ne by (rule bi_val_rlz)
  also have "\<dots> = c3" using cur_pos cur_lv by (simp add: bi_val_def c2_def c3_def)
  finally have c3_val: "bi_val (remove_leading_zeroes c2) = c3" .
  have c3_eq: "remove_leading_zeroes c2 = BigInteger_int c3"
    using inv_eq_BigInteger_int [OF c3_inv] c3_val by simp
  have c3_pos: "0 \<le> c3" using assms(3) by (simp add: c3_def)
  have search: "div_search b (BigInteger_int c3) 0 0 (int CELL_BASE - 1) = Some (int v)"
    unfolding v_def using assms(1,2) c3_pos by (rule div_search_initial)
  have bv: "bi_val b = int (lv (m_digits b))" using assms(2) by (simp add: bi_val_def)
  have mul: "operator_mul b (BigInteger_int (int v)) = Some (BigInteger_int (int (lv (m_digits b)) * int v))"
    using operator_mul_int [OF assms(1), of "int v"] bv by simp
  define bvv where "bvv = BigInteger_int (int (lv (m_digits b)) * int v)"
  have n1: "normalized (m_digits (BigInteger_int c3))" 
    using BigInteger_int_inv by (rule inv_normalized)
  have n2: "normalized (m_digits bvv)" 
    unfolding bvv_def using BigInteger_int_inv by (rule inv_normalized)
  have "BigInteger_inv (operator_minus (BigInteger_int c3) bvv)"
    using n1 n2 by (rule operator_minus_inv)
  moreover have "bi_val (operator_minus (BigInteger_int c3) bvv) = c3 - int (lv (m_digits b)) * int v"
    using bi_val_operator_minus [OF n1 n2] by (simp add: bvv_def bi_val_BigInteger_int)
  ultimately have minus: "operator_minus (BigInteger_int c3) bvv 
                            = BigInteger_int (c3 - int (lv (m_digits b)) * int v)"
    using inv_eq_BigInteger_int by metis
  show ?thesis
    using c2 search mul minus
    by (simp add: div_loop.simps Let_def c3_eq cur_def [symmetric] bvv_def [symmetric])
qed

lemma lv_drop_lt: "limbs_ok ds \<Longrightarrow> lv (drop k ds) < CELL_BASE ^ (length ds - k)"
  using lv_lt [OF limbs_ok_drop, of ds k] by simp

lemma long_division_step:
  fixes X d bv :: nat
  assumes "0 < bv" "d < CELL_BASE"
  defines "c3 \<equiv> d + CELL_BASE * (X mod bv)"
  shows "c3 div bv < CELL_BASE"
    and "(d + CELL_BASE * X) mod bv = c3 mod bv"
    and "(d + CELL_BASE * X) div bv = c3 div bv + CELL_BASE * (X div bv)"
proof -
  have "X mod bv + 1 \<le> bv" using assms(1) by (simp add: Suc_leI)
  then have "CELL_BASE * (X mod bv + 1) \<le> CELL_BASE * bv" by (rule mult_le_mono2)
  then have "c3 < CELL_BASE * bv" using assms(2) by (simp add: c3_def)
  then show "c3 div bv < CELL_BASE" 
    using assms(1) by (simp add: less_mult_imp_div_less mult.commute)
  have e: "d + CELL_BASE * X = c3 + bv * (CELL_BASE * (X div bv))"
  proof -
    have "CELL_BASE * X = CELL_BASE * (bv * (X div bv) + X mod bv)" by simp
    also have "\<dots> = CELL_BASE * (X mod bv) + bv * (CELL_BASE * (X div bv))"
      by (simp only: distrib_left mult.left_commute add.commute)
    finally show ?thesis by (simp add: c3_def)
  qed
  show "(d + CELL_BASE * X) mod bv = c3 mod bv" unfolding e by simp
  show "(d + CELL_BASE * X) div bv = c3 div bv + CELL_BASE * (X div bv)"
    unfolding e using assms(1) by simp
qed

lemma div_loop_correct:
  assumes "limbs_ok (m_digits a)" "normalized (m_digits b)" "\<not> m_negative b"
    and "0 < lv (m_digits b)" "length (m_digits b) \<le> length (m_digits a)"
    and "k \<le> length (m_digits a)"
    and "c = lv (drop k (m_digits a)) mod lv (m_digits b)"
    and "limbs_ok (m_digits result)"
    and "length (m_digits a) - length (m_digits b) + 1 \<le> length (m_digits result)"
    and "lv (drop k (m_digits result)) = lv (drop k (m_digits a)) div lv (m_digits b)"
  shows "\<exists>res. div_loop a b k result (BigInteger_int (int c)) = Some res
           \<and> m_negative res = m_negative result \<and> limbs_ok (m_digits res)
           \<and> m_digits res \<noteq> []
           \<and> lv (m_digits res) = lv (m_digits a) div lv (m_digits b)"
  using assms(6-10)
proof (induction k arbitrary: result c)
  case 0
  have "m_digits result \<noteq> []" using "0.prems"(4) by auto
  then show ?case using 0 by (simp add: div_loop.simps)
next
  case (Suc k)
  define ad where "ad = m_digits a"
  define bv where "bv = lv (m_digits b)"
  define rd where "rd = m_digits result"
  define d where "d = ad ! k"
  define X where "X = lv (drop (Suc k) ad)"
  define c3 where "c3 = d + CELL_BASE * (X mod bv)"
  define v where "v = qdigit bv c3"
  define result' where "result' = (if k < length rd then result\<lparr>m_digits := rd[k := v]\<rparr>
              else result\<lparr>m_digits := rd @ [v]\<rparr>)"
  have k: "k < length ad" using Suc.prems(1) by (simp add: ad_def)
  have dB: "d < CELL_BASE" unfolding d_def using assms(1) k by (simp add: limbs_ok_nth ad_def)
  have bpos: "0 < bv" using assms(4) by (simp add: bv_def)
  have okb: "limbs_ok (m_digits b)" using assms(2) by (simp add: normalized_def)
  have c: "c = X mod bv" using Suc.prems(2) by (simp add: X_def bv_def ad_def)
  have X': "lv (drop k ad) = d + CELL_BASE * X"
    unfolding d_def X_def using k by (rule lv_drop_Suc)
  note lds = long_division_step [OF bpos dB, of X, folded c3_def]
  have v_eq: "v = c3 div bv" unfolding v_def qdigit_def using bpos lds(1) by simp
  have vB: "v < CELL_BASE" unfolding v_def by (rule qdigit_lt)
  have a2: "int (m_digits a ! k) + int CELL_BASE * int c = int c3"
    by (simp add: c3_def c d_def ad_def)
  have dB': "m_digits a ! k < CELL_BASE" using dB by (simp add: d_def ad_def)
  note s0 = div_loop_step [where c = "int c" and a = a and iter = k and result = result and b = b,
      OF okb assms(3) of_nat_0_le_iff dB', unfolded a2 nat_int]
  have step: "div_loop a b (Suc k) result (BigInteger_int (int c)) 
                = div_loop a b k result' (BigInteger_int (int c3 - int bv * int v))"
    by (simp only: s0 result'_def v_def bv_def rd_def)
  have "c3 = bv * v + c3 mod bv" unfolding v_eq by simp
  then have "int c3 - int bv * int v = int (c3 mod bv)" 
    by (metis add_diff_cancel_left' of_nat_add of_nat_mult)
  then have step': "div_loop a b (Suc k) result (BigInteger_int (int c)) 
                = div_loop a b k result' (BigInteger_int (int (c3 mod bv)))"
    using step by simp
  have p2: "c3 mod bv = lv (drop k (m_digits a)) mod lv (m_digits b)"
    using lds(2) X' by (simp add: ad_def bv_def)
  have q: "lv (drop k ad) div bv = v + CELL_BASE * (X div bv)"
    using lds(3) X' v_eq by simp
  have rX: "lv (drop (Suc k) rd) = X div bv"
    using Suc.prems(5) by (simp add: rd_def X_def ad_def bv_def)
  have p3: "limbs_ok (m_digits result')"
    using Suc.prems(3) vB by (simp add: result'_def rd_def limbs_ok_update)
  have p4: "length (m_digits a) - length (m_digits b) + 1 \<le> length (m_digits result')"
    using Suc.prems(4) by (simp add: result'_def rd_def)
  have p5: "lv (drop k (m_digits result')) = lv (drop k (m_digits a)) div lv (m_digits b)"
  proof (cases "k < length rd")
    case True
    then have "drop k (rd[k := v]) = v # drop (Suc k) rd"
      by (simp add: Cons_nth_drop_Suc [symmetric])
    then have "lv (drop k (m_digits result')) = v + CELL_BASE * (X div bv)"
      using True rX by (simp add: result'_def)
    with q show ?thesis by (simp add: ad_def bv_def)
  next
    case False
    then have "length ad - length (m_digits b) + 1 \<le> k" 
      using Suc.prems(4) by (simp add: rd_def ad_def)
    then have "length ad - k \<le> length (m_digits b) - 1" by simp
    then have "CELL_BASE ^ (length ad - k) \<le> CELL_BASE ^ (length (m_digits b) - 1)"
      by (intro power_increasing) (simp_all add: CELL_BASE_def)
    moreover have "lv (drop k ad) < CELL_BASE ^ (length ad - k)"
      using assms(1) unfolding ad_def by (rule lv_drop_lt)
    moreover have "m_digits b \<noteq> [0]" using assms(4) by auto
    then have "CELL_BASE ^ (length (m_digits b) - 1) \<le> bv" 
      unfolding bv_def using assms(2) by (intro normalized_lower)
    ultimately have small: "lv (drop k ad) < bv" by linarith
    then have q0: "lv (drop k ad) div bv = 0" by simp
    with q have "v = 0" by simp
    moreover have "lv (drop k (rd @ [0])) = 0"
      using False by (cases "k - length rd") simp_all
    ultimately have "lv (drop k (m_digits result')) = 0"
      using False by (simp add: result'_def)
    then show ?thesis using q0 by (simp add: ad_def bv_def)
  qed
  have p1: "k \<le> length (m_digits a)" using k by (simp add: ad_def)
  from Suc.IH [OF p1 p2 p3 p4 p5]
  obtain res where "div_loop a b k result' (BigInteger_int (int (c3 mod bv))) = Some res"
    "m_negative res = m_negative result'" "limbs_ok (m_digits res)" "m_digits res \<noteq> []"
    "lv (m_digits res) = lv (m_digits a) div lv (m_digits b)"
    by blast
  moreover have "m_negative result' = m_negative result" by (simp add: result'_def)
  ultimately show ?case unfolding step' by simp
qed

subsection \<open>Division and modulo\<close>

lemma tdiv_tmod: "tdiv a b * b + tmod a b = a"
proof -
  have "tdiv a b * b = sgn a * ((\<bar>a\<bar> div \<bar>b\<bar>) * (sgn b * b))"
    by (simp add: tdiv_def mult.assoc mult.left_commute)
  also have "sgn b * b = \<bar>b\<bar>" by (simp add: abs_sgn mult.commute)
  finally have 1: "tdiv a b * b = sgn a * ((\<bar>a\<bar> div \<bar>b\<bar>) * \<bar>b\<bar>)" .
  have "tdiv a b * b + tmod a b = sgn a * ((\<bar>a\<bar> div \<bar>b\<bar>) * \<bar>b\<bar> + \<bar>a\<bar> mod \<bar>b\<bar>)"
    unfolding 1 tmod_def by (simp only: distrib_left)
  also have "(\<bar>a\<bar> div \<bar>b\<bar>) * \<bar>b\<bar> + \<bar>a\<bar> mod \<bar>b\<bar> = \<bar>a\<bar>" by simp
  also have "sgn a * \<bar>a\<bar> = a" by (rule mult_sgn_abs)
  finally show ?thesis .
qed

lemma bi_val_abs: "\<bar>bi_val x\<bar> = int (lv (m_digits x))"
  by (simp add: bi_val_def)

lemma bi_val_sgn:
  "BigInteger_inv x \<Longrightarrow>
   sgn (bi_val x) = (if m_negative x then - 1 else if lv (m_digits x) = 0 then 0 else 1)"
  using inv_negative_nonzero [of x] by (auto simp: bi_val_def)

lemma tdiv_bi_val:
  assumes "BigInteger_inv x" "BigInteger_inv y"
  shows "tdiv (bi_val x) (bi_val y)
           = (if m_negative x \<noteq> m_negative y 
              then - int (lv (m_digits x) div lv (m_digits y))
              else int (lv (m_digits x) div lv (m_digits y)))"
  using assms by (auto simp: tdiv_def bi_val_abs bi_val_sgn zdiv_int)

lemma operator_div_correct:
  assumes "BigInteger_inv x" "BigInteger_inv other" "bi_val other \<noteq> 0"
  shows "\<exists>q. operator_div x other = Some q \<and> BigInteger_inv q
             \<and> bi_val q = tdiv (bi_val x) (bi_val other)"
proof -
  define rn where "rn = (m_negative x \<noteq> m_negative other)"
  define a where "a = abs_bi x"
  define b where "b = abs_bi other"
  define av where "av = lv (m_digits x)"
  define bv where "bv = lv (m_digits other)"
  have na: "normalized (m_digits a)" and nb: "normalized (m_digits b)"
    using assms(1,2) by (simp_all add: a_def b_def abs_bi_def inv_normalized)
  have bpos: "0 < bv" using assms(3) by (auto simp: bi_val_def bv_def split: if_splits)
  have eq: "operator_eq a b = (av = bv)"
    using normalized_inj [OF na nb]
    by (auto simp: operator_eq_def a_def b_def abs_bi_def av_def bv_def)
  have less: "operator_less a b = (av < bv)"
    unfolding a_def b_def av_def bv_def
    using assms(1,2) by (intro operator_less_abs) (simp_all add: inv_normalized)
  have t: "tdiv (bi_val x) (bi_val other) = (if rn then - int (av div bv) else int (av div bv))"
    unfolding rn_def av_def bv_def using assms(1,2) by (rule tdiv_bi_val)
  consider (eq) "av = bv" | (lt) "av < bv" | (gt) "bv < av" by linarith
  then show ?thesis
  proof cases
    case eq
    then have e: "operator_div x other = Some (x\<lparr>m_digits := [1], m_negative := rn\<rparr>)"
      using \<open>operator_eq a b = (av = bv)\<close>
      by (simp add: operator_div_def Let_def a_def b_def rn_def)
    have "BigInteger_inv (x\<lparr>m_digits := [1], m_negative := rn\<rparr>)"
      by (simp add: BigInteger_inv_def normalized_def CELL_BASE_def)
    moreover have "bi_val (x\<lparr>m_digits := [1], m_negative := rn\<rparr>) = tdiv (bi_val x) (bi_val other)"
      unfolding t using eq bpos by (simp add: bi_val_def)
    ultimately show ?thesis using e by simp
  next
    case lt
    then have e: "operator_div x other = Some (BigInteger_int 0)"
      using \<open>operator_eq a b = (av = bv)\<close> less
      by (simp add: operator_div_def Let_def a_def b_def)
    show ?thesis unfolding e t using lt by (simp add: BigInteger_int_correct)
  next
    case gt
    define result0 where "result0 = \<lparr>m_digits = resize [0] (length (m_digits a) - length (m_digits b) + 1),
                       m_negative = rn\<rparr>"
    have la: "m_digits a = m_digits x" and lb: "m_digits b = m_digits other"
      by (simp_all add: a_def b_def abs_bi_def)
    have len: "length (m_digits b) \<le> length (m_digits a)"
    proof (rule ccontr)
      assume "\<not> length (m_digits b) \<le> length (m_digits a)"
      then have "length (m_digits a) < length (m_digits b)" by simp
      from normalized_length_mono [OF na nb this] gt show False
        by (simp add: la lb av_def bv_def)
    qed
    have r0: "m_digits result0 = replicate (length (m_digits a) - length (m_digits b) + 1) 0"
      using resize_zero by (simp add: result0_def)
    have p: "limbs_ok (m_digits a)" "\<not> m_negative b" "0 < lv (m_digits b)"
      "length (m_digits a) \<le> length (m_digits a)"
      "0 = lv (drop (length (m_digits a)) (m_digits a)) mod lv (m_digits b)"
      "limbs_ok (m_digits result0)"
      "length (m_digits a) - length (m_digits b) + 1 \<le> length (m_digits result0)"
      using na bpos by (simp_all add: normalized_def b_def abs_bi_def bv_def r0 CELL_BASE_pos)
    have z1: "lv (drop (length (m_digits a)) (m_digits result0)) = 0"
      unfolding r0 by (simp only: drop_replicate lv_replicate0)
    have z2: "lv (drop (length (m_digits a)) (m_digits a)) div lv (m_digits b) = 0"
      by simp
    have p10: "lv (drop (length (m_digits a)) (m_digits result0)) 
                = lv (drop (length (m_digits a)) (m_digits a)) div lv (m_digits b)"
      by (simp only: z1 z2)
    from div_loop_correct [OF p(1) nb p(2) p(3) len p(4) p(5) p(6) p(7) p10]
    obtain res where res: "div_loop a b (length (m_digits a)) result0 (BigInteger_int 0) = Some res"
      "m_negative res = rn" "limbs_ok (m_digits res)" "m_digits res \<noteq> []"
      "lv (m_digits res) = av div bv"
      by (auto simp: result0_def la lb av_def bv_def)
    have d0: "BigInteger_default = BigInteger_int 0"
      by (simp add: BigInteger_default_def BigInteger_int_def)
    note res1 = res(1) [unfolded result0_def rn_def a_def b_def]
    note eq1 = eq [unfolded a_def b_def]
    note less1 = less [unfolded a_def b_def]
    have e: "operator_div x other = Some (remove_leading_zeroes res)"
      using gt eq1 less1 res1 by (simp add: operator_div_def Let_def d0)
    have "BigInteger_inv (remove_leading_zeroes res)" using res(4,3) by (rule rlz_inv)
    moreover have "bi_val (remove_leading_zeroes res) = tdiv (bi_val x) (bi_val other)"
      unfolding t using bi_val_rlz [OF res(4)] res(2,5) by (simp add: bi_val_def)
    ultimately show ?thesis using e by simp
  qed
qed

lemma operator_mod_correct:
  assumes "BigInteger_inv x" "BigInteger_inv other" "bi_val other \<noteq> 0"
  shows "\<exists>r. operator_mod x other = Some r \<and> BigInteger_inv r
             \<and> bi_val r = tmod (bi_val x) (bi_val other)"
proof -
  from operator_div_correct [OF assms]
  obtain q where q: "operator_div x other = Some q" "BigInteger_inv q"
    "bi_val q = tdiv (bi_val x) (bi_val other)" by blast
  from operator_mul_correct [OF inv_limbs_ok [OF q(2)] inv_limbs_ok [OF assms(2)]]
  obtain p where p: "operator_mul q other = Some p" "BigInteger_inv p"
    "bi_val p = bi_val q * bi_val other" by blast
  have e: "operator_mod x other = Some (operator_minus x p)"
    using q(1) p(1) by (simp add: operator_mod_def)
  have n: "normalized (m_digits x)" "normalized (m_digits p)"
    using assms(1) p(2) by (simp_all add: inv_normalized)
  have "bi_val (operator_minus x p) = bi_val x - tdiv (bi_val x) (bi_val other) * bi_val other"
    using bi_val_operator_minus [OF n] p(3) q(3) by simp
  also have "\<dots> = tmod (bi_val x) (bi_val other)"
    using tdiv_tmod [of "bi_val x" "bi_val other"] by simp
  finally show ?thesis
    using e operator_minus_inv [OF n] by simp
qed

lemma is_zero_bi_val: "BigInteger_inv x \<Longrightarrow> is_zero x = (bi_val x = 0)"
  using normalized_zero [of "m_digits x"]
  by (auto simp: is_zero_iff bi_val_def BigInteger_inv_def)

lemma inv_negative_iff: "BigInteger_inv x \<Longrightarrow> m_negative x = (bi_val x < 0)"
  using inv_negative_nonzero [of x] by (auto simp: bi_val_def)

lemma tmod_sign:
  assumes "tmod a b \<noteq> 0"
  shows "(tmod a b < 0) = (a < 0)"
proof -
  have m: "0 \<le> \<bar>a\<bar> mod \<bar>b\<bar>" by (cases "b = 0") simp_all
  from assms have "\<bar>a\<bar> mod \<bar>b\<bar> \<noteq> 0" by (auto simp: tmod_def)
  with m have "0 < \<bar>a\<bar> mod \<bar>b\<bar>" by simp
  then show ?thesis
    by (cases "a < 0") (simp_all add: tmod_def sgn_if mult_less_0_iff not_less)
qed

subsection \<open>Division by zero\<close>

lemma qdigit_zero: "qdigit 0 cv = CELL_BASE - 1"
  by (simp add: qdigit_def)

lemma div_loop_zero:
  assumes "limbs_ok (m_digits a)" "limbs_ok (m_digits b)" "\<not> m_negative b"
    and "lv (m_digits b) = 0"
    and "k \<le> length (m_digits a)" "k \<le> length (m_digits result)" "0 \<le> c"
  shows "div_loop a b k result (BigInteger_int c)
           = Some (result\<lparr>m_digits := replicate k (CELL_BASE - 1) @ drop k (m_digits result)\<rparr>)"
  using assms(5-7)
proof (induction k arbitrary: result c)
  case 0
  then show ?case by (simp add: div_loop.simps)
next
  case (Suc k)
  have dB: "m_digits a ! k < CELL_BASE" using assms(1) Suc.prems(1) by (simp add: limbs_ok_nth)
  define result' where "result' = result\<lparr>m_digits := (m_digits result)[k := CELL_BASE - 1]\<rparr>"
  have step: "div_loop a b (Suc k) result (BigInteger_int c)
          = div_loop a b k result' (BigInteger_int (int (m_digits a ! k) + int CELL_BASE * c))"
    using div_loop_step [OF assms(2,3) Suc.prems(3) dB, of result] Suc.prems(2)
    by (simp add: assms(4) qdigit_zero result'_def)
  have c': "0 \<le> int (m_digits a ! k) + int CELL_BASE * c" using Suc.prems(3) by simp
  have k: "k \<le> length (m_digits a)" "k \<le> length (m_digits result')" "k < length (m_digits result)"
    using Suc.prems(1,2) by (simp_all add: result'_def)
  have "drop k ((m_digits result)[k := CELL_BASE - 1]) = (CELL_BASE - 1) # drop (Suc k) (m_digits result)"
    using k(3) by (simp add: Cons_nth_drop_Suc [symmetric])
  then have "replicate k (CELL_BASE - 1) @ drop k (m_digits result')
               = replicate (Suc k) (CELL_BASE - 1) @ drop (Suc k) (m_digits result)"
    by (simp add: result'_def replicate_append_same)
  then show ?case
    unfolding step Suc.IH [OF k(1,2) c'] by (simp add: result'_def)
qed

lemma is_zero_abs_bi: "is_zero b \<Longrightarrow> abs_bi b = \<lparr>m_digits = [0], m_negative = False\<rparr>"
  by (simp add: is_zero_iff abs_bi_def)

lemma is_zero_normalized: "is_zero b \<Longrightarrow> normalized (m_digits b)"
  by (simp add: is_zero_iff normalized_def limbs_ok_def CELL_BASE_def)

lemma normalized_nonzero_lv: "normalized (m_digits a) \<Longrightarrow> \<not> is_zero a \<Longrightarrow> lv (m_digits a) \<noteq> 0"
  using normalized_zero [of "m_digits a"] by (auto simp: is_zero_iff)

lemma normalized_nonzero_inv: "normalized (m_digits a) \<Longrightarrow> \<not> is_zero a \<Longrightarrow> BigInteger_inv a"
  by (simp add: BigInteger_inv_def is_zero_iff)

lemma operator_div_zero_divisor:
  assumes "normalized (m_digits a)" "\<not> is_zero a" "is_zero b"
  shows "operator_div a b
           = Some \<lparr>m_digits = replicate (length (m_digits a)) (CELL_BASE - 1),
                   m_negative = (m_negative a \<noteq> m_negative b)\<rparr>"
proof -
  define n where "n = length (m_digits a)"
  define z where "z = abs_bi b"
  have z: "z = \<lparr>m_digits = [0], m_negative = False\<rparr>"
    using assms(3) by (simp add: z_def is_zero_abs_bi)
  note na = assms(1)
  have nz: "lv (m_digits a) \<noteq> 0" using assms(1,2) by (rule normalized_nonzero_lv)
  have n1: "1 \<le> n" using na by (cases "m_digits a") (simp_all add: normalized_def n_def)
  have neq: "\<not> operator_eq (abs_bi a) z"
    using nz by (auto simp: operator_eq_def abs_bi_def z)
  from operator_less_abs [OF na is_zero_normalized [OF assms(3)]]
  have nless: "\<not> operator_less (abs_bi a) z"
    using assms(3) by (simp add: z_def is_zero_iff)
  define result0 where "result0 = \<lparr>m_digits = resize [0] (n - 1 + 1), 
                                    m_negative = (m_negative a \<noteq> m_negative b)\<rparr>"
  have r0: "m_digits result0 = replicate n 0" 
    using n1 resize_zero [of "n - 1"] by (simp add: result0_def)
  have p: "limbs_ok (m_digits (abs_bi a))" "limbs_ok (m_digits z)" "\<not> m_negative z"
    "lv (m_digits z) = 0" "n \<le> length (m_digits (abs_bi a))" "n \<le> length (m_digits result0)"
    using na by (simp_all add: abs_bi_def normalized_def z n_def r0 limbs_ok_def CELL_BASE_pos)
  have last: "last (replicate n (CELL_BASE - 1)) \<noteq> 0" "replicate n (CELL_BASE - 1) \<noteq> []"
    using n1 by (simp_all add: CELL_BASE_def)
  have loop: "div_loop (abs_bi a) z n result0 (BigInteger_int 0)
          = Some (result0\<lparr>m_digits := replicate n (CELL_BASE - 1)\<rparr>)"
    using div_loop_zero [OF p, of 0] by (simp add: r0)
  have d0: "BigInteger_default = BigInteger_int 0"
    by (simp add: BigInteger_default_def BigInteger_int_def)
  have "remove_leading_zeroes (result0\<lparr>m_digits := replicate n (CELL_BASE - 1)\<rparr>)
          = result0\<lparr>m_digits := replicate n (CELL_BASE - 1)\<rparr>"
    using last by (intro rlz_id) simp_all
  moreover have "length (m_digits (abs_bi a)) - length (m_digits z) + 1 = n - 1 + 1"
    by (simp add: abs_bi_def z n_def)
  moreover have "length (m_digits (abs_bi a)) = n"
    by (simp add: abs_bi_def n_def)
  ultimately show ?thesis
    using neq nless loop
    unfolding operator_div_def Let_def z_def [symmetric] d0 n_def [symmetric]
    by (simp add: result0_def)
qed

text \<open>
  Zero by zero: \<^verbatim>\<open>is_zero\<close> looks at the limbs only, so each operand is the limb vector
  \<open>[0]\<close> with either sign flag, and the four cases are evaluated.
\<close>

lemma zero_div_zero:
  assumes "is_zero a" "is_zero b"
  shows "operator_div a b = Some \<lparr>m_digits = [1], m_negative = (m_negative a \<noteq> m_negative b)\<rparr>"
    and "operator_mod a b = Some \<lparr>m_digits = [0], m_negative = False\<rparr>"
proof -
  obtain s where a: "a = \<lparr>m_digits = [0], m_negative = s\<rparr>"
    using assms(1) by (cases a) (simp add: is_zero_iff)
  obtain t where b: "b = \<lparr>m_digits = [0], m_negative = t\<rparr>"
    using assms(2) by (cases b) (simp add: is_zero_iff)
  show "operator_div a b = Some \<lparr>m_digits = [1], m_negative = (m_negative a \<noteq> m_negative b)\<rparr>"
    unfolding a b by (simp add: operator_div_def operator_eq_def abs_bi_def Let_def)
  show "operator_mod a b = Some \<lparr>m_digits = [0], m_negative = False\<rparr>"
    unfolding a b
    by (cases s; cases t)
       (simp_all add: operator_mod_def operator_div_def operator_eq_def abs_bi_def Let_def
          operator_mul_def mul_outer.simps mul_inner.simps resize_def remove_leading_zeroes_def
          operator_minus_def operator_plus_def add_abs_def add_abs_loop.simps is_zero_def
          CELL_BASE_def)
qed

lemma div_by_zero_all:
  assumes "normalized (m_digits a)" "is_zero b"
  shows "operator_div a b
           = Some \<lparr>m_digits = (if is_zero a then [1]
                               else replicate (length (m_digits a)) (CELL_BASE - 1)),
                   m_negative = (m_negative a \<noteq> m_negative b)\<rparr>"
    and "operator_mod a b = Some (if is_zero a then \<lparr>m_digits = [0], m_negative = False\<rparr> else a)"
proof -
  show d: "operator_div a b
           = Some \<lparr>m_digits = (if is_zero a then [1]
                               else replicate (length (m_digits a)) (CELL_BASE - 1)),
                   m_negative = (m_negative a \<noteq> m_negative b)\<rparr>"
    using zero_div_zero(1) [OF _ assms(2), of a] operator_div_zero_divisor [OF assms(1) _ assms(2)]
    by (cases "is_zero a") simp_all
  show "operator_mod a b = Some (if is_zero a then \<lparr>m_digits = [0], m_negative = False\<rparr> else a)"
  proof (cases "is_zero a")
    case True
    then show ?thesis using zero_div_zero(2) [OF True assms(2)] by simp
  next
    case False
    have inv: "BigInteger_inv a" using assms(1) False by (rule normalized_nonzero_inv)
    define q where "q = \<lparr>m_digits = replicate (length (m_digits a)) (CELL_BASE - 1),
                         m_negative = (m_negative a \<noteq> m_negative b)\<rparr>"
    have lq: "limbs_ok (m_digits q)"
      by (simp add: q_def limbs_ok_def list_all_iff CELL_BASE_def)
    have lb: "limbs_ok (m_digits b)" and vb: "bi_val b = 0"
      using assms(2) by (simp_all add: is_zero_iff limbs_ok_def CELL_BASE_def bi_val_def)
    from operator_mul_correct [OF lq lb]
    obtain p where p: "operator_mul q b = Some p" "BigInteger_inv p"
      "bi_val p = bi_val q * bi_val b" by blast
    have n: "normalized (m_digits a)" "normalized (m_digits p)"
      using assms(1) p(2) by (simp_all add: inv_normalized)
    have "bi_val (operator_minus a p) = bi_val a"
      using bi_val_operator_minus [OF n] p(3) vb by simp
    then have "operator_minus a p = a"
      using operator_minus_inv [OF n] inv by (intro bi_val_inj)
    then show ?thesis
      using d p(1) False by (simp add: operator_mod_def q_def)
  qed
qed

text \<open>
  A zero dividend, of either sign flag, over a non-zero divisor takes the \<^verbatim>\<open>a < b\<close> path
  of \<^verbatim>\<open>operator/=\<close>, which assigns \<^verbatim>\<open>BigInteger(0)\<close>.
\<close>

lemma operator_div_zero_dividend:
  assumes "is_zero a" "BigInteger_inv b" "bi_val b \<noteq> 0"
  shows "operator_div a b = Some (BigInteger_int 0)"
proof -
  have za: "abs_bi a = \<lparr>m_digits = [0], m_negative = False\<rparr>"
    using assms(1) by (rule is_zero_abs_bi)
  have nb: "normalized (m_digits b)" using assms(2) by (rule inv_normalized)
  have lb: "lv (m_digits b) \<noteq> 0" using assms(3) by (auto simp: bi_val_def split: if_splits)
  then have "m_digits b \<noteq> [0]" by auto
  then have neq: "\<not> operator_eq (abs_bi a) (abs_bi b)"
    using assms(1) by (auto simp: is_zero_iff operator_eq_def abs_bi_def)
  have "operator_less (abs_bi a) (abs_bi b) = (lv (m_digits a) < lv (m_digits b))"
    using is_zero_normalized [OF assms(1)] nb by (rule operator_less_abs)
  then have less: "operator_less (abs_bi a) (abs_bi b)"
    using lb assms(1) by (simp add: is_zero_iff)
  show ?thesis using neq less by (simp add: operator_div_def Let_def)
qed

subsection \<open>Evaluation of characters and numerals\<close>

lemma digit_char_eval:
  "digit_char 0 = CHR ''0''" "digit_char 1 = CHR ''1''" "digit_char 2 = CHR ''2''"
  "digit_char 3 = CHR ''3''" "digit_char 4 = CHR ''4''" "digit_char 5 = CHR ''5''"
  "digit_char 6 = CHR ''6''" "digit_char 7 = CHR ''7''" "digit_char 8 = CHR ''8''"
  "digit_char 9 = CHR ''9''"
  by (simp_all add: digit_char_def char_of_eq_iff)

lemma digit_char_Suc0: "digit_char (Suc 0) = CHR ''1''"
  using digit_char_eval(2) by simp

lemma asDecimal_loop_numeral:
  "asDecimal_loop (numeral k) num den result
     = asDecimal_loop (Suc (pred_numeral k)) num den result"
  by (simp add: numeral_eq_Suc)

subsection \<open>Rendering\<close>

lemma to_string_small: "n < 10 \<Longrightarrow> to_string n = [digit_char n]"
  by (subst to_string.simps) simp

lemma to_string_step:
  "10 \<le> n \<Longrightarrow> to_string n = to_string (n div 10) @ [digit_char (n mod 10)]"
  by (subst to_string.simps) simp

lemma length_digits_n [simp]: "length (digits_n k d) = k"
  by (induction k arbitrary: d) simp_all

lemma to_string_shift:
  "0 < n \<Longrightarrow> d < 10 ^ k \<Longrightarrow> to_string (d + 10 ^ k * n) = to_string n @ digits_n k d"
proof (induction k arbitrary: d)
  case 0
  then show ?case by simp
next
  case (Suc k)
  have big: "10 \<le> d + 10 ^ Suc k * n"
  proof -
    have "(1::nat) \<le> 10 ^ k * n" using Suc.prems(1) by simp
    then have "10 * (1::nat) \<le> 10 * (10 ^ k * n)" by (rule mult_le_mono2)
    moreover have "(10::nat) ^ Suc k * n = 10 * (10 ^ k * n)" by simp
    ultimately show ?thesis by linarith
  qed
  have e: "d + 10 ^ Suc k * n = d + 10 * (10 ^ k * n)" by simp
  have dv: "(d + 10 ^ Suc k * n) div 10 = d div 10 + 10 ^ k * n" unfolding e by simp
  have md: "(d + 10 ^ Suc k * n) mod 10 = d mod 10" unfolding e by simp
  have "d div 10 < 10 ^ k" using Suc.prems(2) by (simp add: less_mult_imp_div_less mult.commute)
  from Suc.IH [OF Suc.prems(1) this] show ?case
    by (simp only: to_string_step [OF big] dv md digits_n.simps append_assoc)
qed

lemma digits_n_zero: "digits_n k 0 = replicate k CHR ''0''"
  by (induction k) (simp_all add: digit_char_eval replicate_append_same)

lemma digits_n_small: "d < 10 \<Longrightarrow> digits_n (Suc k) d = replicate k CHR ''0'' @ [digit_char d]"
  by (simp add: digits_n_zero)

lemma pad_digits:
  "0 < k \<Longrightarrow> d < 10 ^ k \<Longrightarrow>
   length (to_string d) \<le> k
   \<and> replicate (k - length (to_string d)) CHR ''0'' @ to_string d = digits_n k d"
proof (induction k arbitrary: d)
  case 0
  then show ?case by simp
next
  case (Suc k)
  show ?case
  proof (cases "d < 10")
    case True
    then show ?thesis by (simp add: to_string_small digits_n_zero)
  next
    case False
    then have big: "10 \<le> d" by simp
    have k: "0 < k" using Suc.prems(2) big by (cases k) simp_all
    have "d div 10 < 10 ^ k" using Suc.prems(2) by (simp add: less_mult_imp_div_less mult.commute)
    from Suc.IH [OF k this]
    have l: "length (to_string (d div 10)) \<le> k"
      and p: "replicate (k - length (to_string (d div 10))) CHR ''0'' @ to_string (d div 10)
                = digits_n k (d div 10)" by simp_all
    have len: "length (to_string d) = Suc (length (to_string (d div 10)))"
      by (simp add: to_string_step [OF big])
    have "replicate (Suc k - length (to_string d)) CHR ''0'' @ to_string d
            = (replicate (k - length (to_string (d div 10))) CHR ''0'' @ to_string (d div 10))
                @ [digit_char (d mod 10)]"
      unfolding len by (simp add: to_string_step [OF big])
    then show ?thesis using l len p by simp
  qed
qed

lemma CELL_BASE_pow: "CELL_BASE = 10 ^ 9"
  by (simp add: CELL_BASE_def)

lemma pad_cell_ok: "d < CELL_BASE \<Longrightarrow> pad_cell d = Some (digits_n 9 d)"
  using pad_digits [of 9 d] by (simp add: pad_cell_def Let_def CELL_LEN_def CELL_BASE_pow)

lemma toString_loop_correct:
  "limbs_ok ds \<Longrightarrow> i \<le> length ds \<Longrightarrow>
   toString_loop ds i ss = Some (ss @ concat (map (digits_n 9) (rev (take i ds))))"
proof (induction i arbitrary: ss)
  case 0
  then show ?case by simp
next
  case (Suc i)
  then have i: "i < length ds" by simp
  have "pad_cell (ds ! i) = Some (digits_n 9 (ds ! i))"
    using Suc.prems(1) i by (intro pad_cell_ok limbs_ok_nth)
  then show ?case
    using Suc.IH [OF Suc.prems(1), of "ss @ digits_n 9 (ds ! i)"] i
    by (simp add: take_Suc_conv_app_nth)
qed

lemma to_string_lv:
  "ds \<noteq> [] \<Longrightarrow> limbs_ok ds \<Longrightarrow> last ds \<noteq> 0 \<Longrightarrow>
   to_string (lv ds) = to_string (last ds) @ concat (map (digits_n 9) (rev (butlast ds)))"
proof (induction ds)
  case Nil
  then show ?case by simp
next
  case (Cons d ds)
  show ?case
  proof (cases "ds = []")
    case True
    then show ?thesis by simp
  next
    case False
    then have l: "last ds \<noteq> 0" and ok: "limbs_ok ds" and d: "d < 10 ^ 9"
      using Cons.prems by (simp_all add: CELL_BASE_pow)
    have "last ds * CELL_BASE ^ (length ds - 1) \<le> lv ds" using False by (rule lv_ge_last)
    moreover have "0 < last ds * CELL_BASE ^ (length ds - 1)" using l CELL_BASE_pos by simp
    ultimately have pos: "0 < lv ds" by linarith
    have "to_string (lv (d # ds)) = to_string (lv ds) @ digits_n 9 d"
      using to_string_shift [OF pos d] by (simp add: CELL_BASE_pow)
    then show ?thesis using Cons.IH [OF False ok l] False by simp
  qed
qed

lemma toString_correct:
  assumes "BigInteger_inv x"
  shows "toString x = Some ((if m_negative x then ''-'' else []) @ to_string (lv (m_digits x)))"
proof (cases "is_zero x")
  case True
  then have "m_digits x = [0]" by (simp add: is_zero_iff)
  moreover then have "\<not> m_negative x" using assms by (simp add: BigInteger_inv_def)
  ultimately show ?thesis using True by (simp add: toString_def to_string_small digit_char_eval)
next
  case False
  then have nz: "m_digits x \<noteq> [0]" by (simp add: is_zero_iff)
  with assms have ne: "m_digits x \<noteq> []" and ok: "limbs_ok (m_digits x)"
    and l: "last (m_digits x) \<noteq> 0"
    by (auto simp: BigInteger_inv_def normalized_def)
  have "toString x = toString_loop (m_digits x) (length (m_digits x) - 1)
             ((if m_negative x then ''-'' else []) @ to_string (last (m_digits x)))"
    using False ne by (simp add: toString_def)
  also have "\<dots> = Some (((if m_negative x then ''-'' else []) @ to_string (last (m_digits x)))
                 @ concat (map (digits_n 9) (rev (take (length (m_digits x) - 1) (m_digits x)))))"
    using ok by (intro toString_loop_correct) simp_all
  also have "take (length (m_digits x) - 1) (m_digits x) = butlast (m_digits x)"
    by (simp add: butlast_conv_take)
  finally show ?thesis using to_string_lv [OF ne ok l] by simp
qed

subsection \<open>Parsing\<close>

lemma stoul_snoc: "stoul (xs @ [c]) = 10 * stoul xs + ((of_char c :: nat) - 48)"
  by (simp add: stoul_def)

lemma stoul_Nil [simp]: "stoul [] = 0"
  by (simp add: stoul_def)

lemma stoul_append: "stoul (xs @ ys) = stoul xs * 10 ^ length ys + stoul ys"
proof (induction ys rule: rev_induct)
  case Nil
  then show ?case by simp
next
  case (snoc y ys)
  have "stoul (xs @ ys @ [y]) = 10 * stoul (xs @ ys) + ((of_char y :: nat) - 48)"
    using stoul_snoc [of "xs @ ys" y] by simp
  then show ?case by (simp add: snoc.IH stoul_snoc algebra_simps)
qed

lemma of_char_digit_char: "d < 10 \<Longrightarrow> (of_char (digit_char d) :: nat) = 48 + d"
  by (simp add: digit_char_def)

lemma isdigit_digit_char: "d < 10 \<Longrightarrow> isdigit (digit_char d)"
  by (simp add: isdigit_def of_char_digit_char)

lemma digit_char_of_char: "isdigit c \<Longrightarrow> digit_char ((of_char c :: nat) - 48) = c"
  by (simp add: isdigit_def digit_char_def)

lemma isdigit_val: "isdigit c \<Longrightarrow> (of_char c :: nat) - 48 < 10"
  by (auto simp: isdigit_def)

lemma to_string_digits: "list_all isdigit (to_string n)"
proof (induction n rule: to_string.induct)
  case (1 n)
  show ?case
  proof (cases "n < 10")
    case True
    then show ?thesis by (simp add: to_string_small isdigit_digit_char)
  next
    case False
    then have "10 \<le> n" by simp
    then show ?thesis using 1 [OF False] by (simp add: to_string_step isdigit_digit_char)
  qed
qed

lemma to_string_nonempty: "to_string n \<noteq> []"
  by (subst to_string.simps) simp

lemma stoul_to_string: "stoul (to_string n) = n"
proof (induction n rule: to_string.induct)
  case (1 n)
  show ?case
  proof (cases "n < 10")
    case True
    then show ?thesis 
      using stoul_snoc [of "[]" "digit_char n"] by (simp add: to_string_small of_char_digit_char)
  next
    case False
    then have "10 \<le> n" by simp
    then show ?thesis 
      using 1 [OF False] by (simp add: to_string_step stoul_snoc of_char_digit_char)
  qed
qed

lemma stoul_bound: "list_all isdigit xs \<Longrightarrow> stoul xs < 10 ^ length xs"
proof (induction xs rule: rev_induct)
  case Nil
  then show ?case by simp
next
  case (snoc c xs)
  then have "stoul xs < 10 ^ length xs" and "(of_char c :: nat) - 48 < 10"
    by (simp_all add: isdigit_val)
  then have "10 * (stoul xs + 1) \<le> 10 * 10 ^ length xs" and "(of_char c :: nat) - 48 < 10"
    by simp_all
  then show ?case by (simp add: stoul_snoc)
qed

lemma stoul_pos:
  assumes "xs \<noteq> []" "list_all isdigit xs" "hd xs \<noteq> CHR ''0''"
  shows "0 < stoul xs"
proof -
  obtain c ys where xs: "xs = c # ys" using assms(1) by (cases xs) auto
  have "isdigit c" "c \<noteq> CHR ''0''" using assms(2,3) xs by simp_all
  then have "0 < (of_char c :: nat) - 48"
    using digit_char_of_char [of c] by (cases "(of_char c :: nat) - 48 = 0") (simp_all add: digit_char_eval)
  moreover have "stoul xs = stoul [c] * 10 ^ length ys + stoul ys"
    using stoul_append [of "[c]" ys] xs by simp
  moreover have "stoul [c] = (of_char c :: nat) - 48" using stoul_snoc [of "[]" c] by simp
  ultimately show ?thesis by simp
qed

lemma to_string_stoul:
  "xs \<noteq> [] \<Longrightarrow> list_all isdigit xs \<Longrightarrow> hd xs \<noteq> CHR ''0'' \<or> xs = ''0'' \<Longrightarrow>
   to_string (stoul xs) = xs"
proof (induction xs rule: rev_induct)
  case Nil
  then show ?case by simp
next
  case (snoc c xs)
  have c: "isdigit c" using snoc.prems(2) by simp
  show ?case
  proof (cases "xs = []")
    case True
    then show ?thesis 
      using c stoul_snoc [of "[]" c]
      by (simp add: to_string_small isdigit_val digit_char_of_char)
  next
    case False
    then have hd: "hd xs \<noteq> CHR ''0''" using snoc.prems(3) by auto
    have d: "list_all isdigit xs" using snoc.prems(2) by simp
    have pos: "0 < stoul xs" using False d hd by (rule stoul_pos)
    define v where "v = 10 * stoul xs + ((of_char c :: nat) - 48)"
    have sv: "stoul (xs @ [c]) = v" by (simp add: stoul_snoc v_def)
    have big: "10 \<le> v" using pos by (simp add: v_def)
    have dv: "v div 10 = stoul xs" using isdigit_val [OF c] by (simp add: v_def)
    have md: "v mod 10 = (of_char c :: nat) - 48" using isdigit_val [OF c] by (simp add: v_def)
    have "to_string v = to_string (stoul xs) @ [digit_char ((of_char c :: nat) - 48)]"
      using to_string_step [OF big] by (simp only: dv md)
    then show ?thesis
      using snoc.IH [OF False d] hd c by (simp add: sv digit_char_of_char)
  qed
qed

lemma hd_to_string_isdigit: "isdigit (hd (to_string n))"
  using to_string_digits [of n] to_string_nonempty [of n]
  by (cases "to_string n") simp_all

lemma hd_to_string_nonzero: "0 < n \<Longrightarrow> hd (to_string n) \<noteq> CHR ''0''"
proof (induction n rule: to_string.induct)
  case (1 n)
  show ?case
  proof (cases "n < 10")
    case True
    have "digit_char n \<noteq> CHR ''0''"
    proof
      assume "digit_char n = CHR ''0''"
      then have "(of_char (digit_char n) :: nat) = 48" by simp
      then show False using True 1(2) by (simp add: of_char_digit_char)
    qed
    then show ?thesis using True by (simp add: to_string_small)
  next
    case False
    then have big: "10 \<le> n" by simp
    then have "0 < n div 10" by simp
    from 1(1) [OF False this] show ?thesis
      using to_string_nonempty [of "n div 10"] by (simp add: to_string_step [OF big])
  qed
qed

lemma isdigit_not_sign: "isdigit c \<Longrightarrow> c \<noteq> CHR ''-'' \<and> c \<noteq> CHR ''+''"
  by (auto simp: isdigit_def)

lemma string_loop_step:
  "start \<le> i \<Longrightarrow>
   BigInteger_string_loop s start i ds =
     BigInteger_string_loop s start (i - int CELL_LEN)
       (ds @ [stoul (take (nat (i - max start (i + 1 - int CELL_LEN) + 1))
                       (drop (nat (max start (i + 1 - int CELL_LEN))) s))])"
  by (subst BigInteger_string_loop.simps) (simp add: Let_def)

lemma string_loop_done: "\<not> start \<le> i \<Longrightarrow> BigInteger_string_loop s start i ds = ds"
  by (subst BigInteger_string_loop.simps) simp

lemma string_loop_correct:
  fixes start :: nat
  assumes "list_all isdigit (drop start s)"
  shows "m = nat (i + 1 - int start) \<Longrightarrow> i < int (length s) \<Longrightarrow> limbs_ok ds \<Longrightarrow>
         limbs_ok (BigInteger_string_loop s (int start) i ds)
       \<and> lv (BigInteger_string_loop s (int start) i ds)
           = lv ds + CELL_BASE ^ length ds * stoul (take m (drop start s))
       \<and> (0 < m \<longrightarrow> BigInteger_string_loop s (int start) i ds \<noteq> [])"
proof (induction m arbitrary: i ds rule: less_induct)
  case (less m)
  define body where "body = drop start s"
  show ?case
  proof (cases "int start \<le> i")
    case False
    then have "m = 0" using less.prems(1) by simp
    then show ?thesis using False less.prems(3) by (simp add: string_loop_done)
  next
    case True
    then have m: "int m = i + 1 - int start" "0 < m" using less.prems(1) by simp_all
    have mlen: "m \<le> length body" using m(1) less.prems(2) by (simp add: body_def)
    define e where "e = m - 9"
    define part where "part = drop e (take m body)"
    have e_int: "max (int start) (i + 1 - int CELL_LEN) = int (start + e)"
      using m(1) by (simp add: e_def CELL_LEN_def max_def)
    have cnt: "nat (i - int (start + e) + 1) = m - e"
      using m(1) by (simp add: e_def)
    have "take (m - e) (drop (start + e) s) = part"
      by (simp add: part_def body_def drop_take add.commute)
    then have step: "BigInteger_string_loop s (int start) i ds
            = BigInteger_string_loop s (int start) (i - 9) (ds @ [stoul part])"
      using string_loop_step [OF True, of s ds] 
      by (simp only: e_int cnt nat_int) (simp add: CELL_LEN_def)
    have lp: "length part = m - e" using mlen by (simp add: part_def)
    have dp: "list_all isdigit part"
      using assms unfolding part_def body_def list_all_iff
      by (meson in_set_dropD in_set_takeD)
    have "stoul part < 10 ^ length part" using dp by (rule stoul_bound)
    also have "(10::nat) ^ length part \<le> 10 ^ 9"
      unfolding lp by (intro power_increasing) (simp_all add: e_def)
    finally have pB: "stoul part < CELL_BASE" by (simp add: CELL_BASE_pow)
    have ok': "limbs_ok (ds @ [stoul part])" using less.prems(3) pB by simp
    have e': "e = nat ((i - 9) + 1 - int start)" using m(1) by (simp add: e_def)
    have elt: "e < m" using m(2) by (simp add: e_def)
    have i': "i - 9 < int (length s)" using less.prems(2) by simp
    from less.IH [OF elt e' i' ok']
    have r1: "limbs_ok (BigInteger_string_loop s (int start) (i - 9) (ds @ [stoul part]))"
      and r2: "lv (BigInteger_string_loop s (int start) (i - 9) (ds @ [stoul part]))
                = lv (ds @ [stoul part]) + CELL_BASE ^ length (ds @ [stoul part]) * stoul (take e body)"
      and r3: "0 < e \<longrightarrow> BigInteger_string_loop s (int start) (i - 9) (ds @ [stoul part]) \<noteq> []"
      by (simp_all add: body_def)
    have ne: "BigInteger_string_loop s (int start) (i - 9) (ds @ [stoul part]) \<noteq> []"
    proof (cases "0 < e")
      case True
      with r3 show ?thesis by simp
    next
      case False
      then have "\<not> int start \<le> i - 9" using e' by simp
      then show ?thesis by (simp add: string_loop_done)
    qed
    have split: "take m body = take e body @ part"
    proof -
      have "take m body = take e (take m body) @ drop e (take m body)"
        by (rule append_take_drop_id [symmetric])
      also have "take e (take m body) = take e body" using elt by (simp add: min_def)
      finally show ?thesis by (simp add: part_def)
    qed
    have sh: "stoul (take e body) * 10 ^ length part = CELL_BASE * stoul (take e body)"
    proof (cases "e = 0")
      case True
      then show ?thesis by simp
    next
      case False
      then have "m - e = 9" by (simp add: e_def)
      then show ?thesis by (simp add: lp CELL_BASE_pow)
    qed
    have "stoul (take m body) = CELL_BASE * stoul (take e body) + stoul part"
      unfolding split stoul_append sh ..
    then have "lv ds + CELL_BASE ^ length ds * stoul (take m body)
          = lv (ds @ [stoul part]) + CELL_BASE ^ length (ds @ [stoul part]) * stoul (take e body)"
      by (simp add: lv_append algebra_simps)
    with r1 r2 ne show ?thesis unfolding step by (simp add: body_def)
  qed
qed

text \<open>
  The string constructor on a well-formed literal: an optional sign followed by at least
  one decimal digit.
\<close>

lemma BigInteger_string_correct:
  assumes "s = sign @ body" "sign = [] \<or> sign = ''-'' \<or> sign = ''+''" 
    and "body \<noteq> []" "list_all isdigit body"
  shows "BigInteger_inv (BigInteger_string s)"
    and "bi_val (BigInteger_string s)
           = (if sign = ''-'' then - int (stoul body) else int (stoul body))"
proof -
  define start :: nat where "start = length sign"
  have hd_body: "hd body \<noteq> CHR ''-''" "hd body \<noteq> CHR ''+''"
    using assms(3,4) isdigit_not_sign [of "hd body"] by (cases body; simp)+
  have sne: "s \<noteq> []" using assms(1,3) by simp
  have hd_s: "(hd s = CHR ''-'') = (sign = ''-'')" "(hd s = CHR ''+'') = (sign = ''+'')"
    using assms(1,2,3) hd_body by (auto simp: hd_append)
  have st: "(if hd s = CHR ''-'' then 1 else if hd s = CHR ''+'' then 1 else 0) = int start"
    "(if hd s = CHR ''-'' \<or> hd s = CHR ''+'' then 1 else 0) = start"
    using assms(2) hd_s by (auto simp: start_def)
  have dr: "drop start s = body" by (simp add: start_def assms(1))
  have ok: "is_correct_str s"
    using sne assms(4) by (simp add: is_correct_str_def Let_def st(2) dr)
  define ds where "ds = BigInteger_string_loop s (int start) (int (length s) - 1) []"
  have m: "length body = nat (int (length s) - 1 + 1 - int start)"
    by (simp add: assms(1) start_def)
  have dg: "list_all isdigit (drop start s)" using assms(4) by (simp add: dr)
  from string_loop_correct [OF dg m, of "[]"]
  have ds: "limbs_ok ds" "lv ds = stoul body" "ds \<noteq> []"
    using assms(3) by (simp_all add: ds_def dr)
  define y where "y = \<lparr>m_digits = ds, m_negative = (sign = ''-'')\<rparr>"
  have ne: "m_digits y \<noteq> []" and oky: "limbs_ok (m_digits y)" using ds by (simp_all add: y_def)
  have inv: "BigInteger_inv (remove_leading_zeroes y)" using ne oky by (rule rlz_inv)
  then have "m_digits (remove_leading_zeroes y) \<noteq> []"
    by (simp add: BigInteger_inv_def normalized_def)
  then have e: "BigInteger_string s = remove_leading_zeroes y"
    unfolding BigInteger_string_def Let_def st(1)
    using sne ok by (simp add: hd_s(1) ds_def y_def)
  show "BigInteger_inv (BigInteger_string s)" unfolding e by (rule inv)
  show "bi_val (BigInteger_string s)
           = (if sign = ''-'' then - int (stoul body) else int (stoul body))"
    unfolding e bi_val_rlz [OF ne] by (simp add: bi_val_def y_def ds(2))
qed

lemma replicate_eval:
  "replicate (numeral k) x = x # replicate (pred_numeral k) x"
  by (simp add: numeral_eq_Suc)

lemma toString_BigInteger_string:
  assumes "s = sign @ body" "sign = [] \<or> sign = ''-''"
    and "body \<noteq> []" "list_all isdigit body" 
    and "hd body \<noteq> CHR ''0'' \<or> (body = ''0'' \<and> sign = [])"
  shows "toString (BigInteger_string s) = Some s"
proof -
  have sg: "sign = [] \<or> sign = ''-'' \<or> sign = ''+''" using assms(2) by blast
  note c = BigInteger_string_correct [OF assms(1) sg assms(3,4)]
  define x where "x = BigInteger_string s"
  have inv: "BigInteger_inv x" and v: "bi_val x = (if sign = ''-'' then - int (stoul body) else int (stoul body))"
    using c by (simp_all add: x_def)
  have lvx: "lv (m_digits x) = stoul body"
    using v bi_val_abs [of x] by (simp split: if_splits)
  have pos: "sign = ''-'' \<Longrightarrow> 0 < stoul body"
    using assms(3,4,5) by (auto intro: stoul_pos)
  have neg: "m_negative x = (sign = ''-'')"
    using inv_negative_iff [OF inv] v pos by auto
  have "to_string (stoul body) = body"
    using assms(3,4,5) by (intro to_string_stoul) auto
  then have "toString x = Some (sign @ body)"
    using toString_correct [OF inv] assms(2) by (auto simp: lvx neg)
  then show ?thesis by (simp add: x_def assms(1))
qed

section \<open>Rational: normalisation\<close>

lemma operator_ne_zero: "BigInteger_inv x \<Longrightarrow> operator_ne x (BigInteger_int 0) = (bi_val x \<noteq> 0)"
  by (simp add: operator_ne_def operator_eq_correct BigInteger_int_correct)

lemma operator_neg_correct:
  assumes "BigInteger_inv x"
  shows "BigInteger_inv (operator_neg x)" and "bi_val (operator_neg x) = - bi_val x"
proof -
  show "BigInteger_inv (operator_neg x)"
  proof (cases "bi_val x = 0")
    case True
    then show ?thesis using assms by (simp add: operator_neg_def operator_ne_zero)
  next
    case False
    then have "lv (m_digits x) \<noteq> 0" by (auto simp: bi_val_def split: if_splits)
    then have "BigInteger_inv (x\<lparr>m_negative := \<not> m_negative x\<rparr>)"
      using assms by (intro inv_I) (simp_all add: inv_normalized)
    then show ?thesis using False assms by (simp add: operator_neg_def operator_ne_zero)
  qed
  show "bi_val (operator_neg x) = - bi_val x"
    using assms by (cases "bi_val x = 0") (simp_all add: operator_neg_def operator_ne_zero bi_val_def)
qed

lemma abs_bi_correct:
  assumes "BigInteger_inv x"
  shows "BigInteger_inv (abs_bi x)" and "bi_val (abs_bi x) = \<bar>bi_val x\<bar>"
  using assms by (simp_all add: abs_bi_def BigInteger_inv_def bi_val_def)

lemma tmod_nonneg: "0 \<le> a \<Longrightarrow> 0 < b \<Longrightarrow> tmod a b = a mod b"
  by (cases "a = 0") (simp_all add: tmod_def)

lemma tdiv_nonneg: "0 \<le> a \<Longrightarrow> 0 < b \<Longrightarrow> tdiv a b = a div b"
  by (cases "a = 0") (simp_all add: tdiv_def)

lemma tdiv_exact:
  assumes "0 < b" "b dvd a"
  shows "tdiv a b = a div b"
proof -
  from assms(2) obtain k where k: "a = b * k" ..
  have "\<bar>a\<bar> div \<bar>b\<bar> = \<bar>k\<bar>" using assms(1) by (simp add: k abs_mult)
  moreover have "sgn a = sgn k" using assms(1) by (simp add: k sgn_mult)
  ultimately have "tdiv a b = sgn k * \<bar>k\<bar>" using assms(1) by (simp add: tdiv_def)
  also have "\<dots> = k" by (rule mult_sgn_abs)
  finally show ?thesis using assms(1) by (simp add: k)
qed

lemma gcd_loop_correct:
  "BigInteger_inv a \<Longrightarrow> BigInteger_inv b \<Longrightarrow> 0 \<le> bi_val a \<Longrightarrow> 0 \<le> bi_val b \<Longrightarrow>
   gcd_loop a b = Some (BigInteger_int (gcd (bi_val a) (bi_val b)))"
proof (induction "nat (bi_val b)" arbitrary: a b rule: less_induct)
  case less
  show ?case
  proof (cases "bi_val b = 0")
    case True
    then have "gcd_loop a b = Some a"
      using less.prems(2) by (subst gcd_loop.simps) (simp add: operator_ne_zero)
    moreover have "a = BigInteger_int (bi_val a)" using less.prems(1) by (rule inv_eq_BigInteger_int)
    ultimately show ?thesis using True less.prems(3) by simp
  next
    case False
    then have bpos: "0 < bi_val b" using less.prems(4) by simp
    from operator_mod_correct [OF less.prems(1,2) False]
    obtain r where r: "operator_mod a b = Some r" "BigInteger_inv r"
      "bi_val r = tmod (bi_val a) (bi_val b)" by blast
    have rv: "bi_val r = bi_val a mod bi_val b"
      using r(3) less.prems(3) bpos by (simp add: tmod_nonneg)
    have r0: "0 \<le> bi_val r" and rlt: "bi_val r < bi_val b" using rv bpos by simp_all
    have "nat (bi_val r) < nat (bi_val b)" using r0 rlt by simp
    from less.hyps [OF this less.prems(2) r(2) less.prems(4) r0]
    have "gcd_loop b r = Some (BigInteger_int (gcd (bi_val b) (bi_val a mod bi_val b)))"
      by (simp add: rv)
    moreover have "gcd (bi_val b) (bi_val a mod bi_val b) = gcd (bi_val a) (bi_val b)"
      by (metis gcd.commute gcd_red_int)
    moreover have "gcd_loop a b = gcd_loop b r"
      using False less.prems(2) r(1) by (subst gcd_loop.simps) (simp add: operator_ne_zero)
    ultimately show ?thesis by simp
  qed
qed

lemma Rational_gcd_correct:
  assumes "BigInteger_inv a" "BigInteger_inv b"
  shows "Rational_gcd a b = Some (BigInteger_int (gcd (bi_val a) (bi_val b)))"
  using gcd_loop_correct [OF abs_bi_correct(1) [OF assms(1)] abs_bi_correct(1) [OF assms(2)]]
  by (simp add: Rational_gcd_def abs_bi_correct assms)

lemma operator_div_exact:
  assumes "BigInteger_inv x" "0 < g" "g dvd bi_val x"
  shows "operator_div x (BigInteger_int g) = Some (BigInteger_int (bi_val x div g))"
proof -
  have gi: "BigInteger_inv (BigInteger_int g)" by (rule BigInteger_int_inv)
  have gn: "bi_val (BigInteger_int g) \<noteq> 0" using assms(2) by (simp add: bi_val_BigInteger_int)
  from operator_div_correct [OF assms(1) gi gn]
  obtain q where q: "operator_div x (BigInteger_int g) = Some q" "BigInteger_inv q"
    "bi_val q = tdiv (bi_val x) g" by (auto simp: bi_val_BigInteger_int)
  have "bi_val q = bi_val x div g" using q(3) tdiv_exact [OF assms(2,3)] by simp
  then have "q = BigInteger_int (bi_val x div g)"
    using inv_eq_BigInteger_int [OF q(2)] by simp
  with q(1) show ?thesis by simp
qed

text \<open>
  What \<^verbatim>\<open>normalize\<close> returns on a pair with a non-zero denominator: the sign moves to
  the numerator and both parts are divided by their greatest common divisor.
\<close>

lemma Rational_normalize_correct:
  assumes "BigInteger_inv (numerator r)" "BigInteger_inv (denominator r)"
    and "bi_val (denominator r) \<noteq> 0"
  defines "n \<equiv> bi_val (numerator r)" and "d \<equiv> bi_val (denominator r)"
  shows "Rational_normalize r
           = Some \<lparr>numerator = BigInteger_int ((if d < 0 then - n else n) div gcd n d),
                   denominator = BigInteger_int (\<bar>d\<bar> div gcd n d)\<rparr>"
proof -
  define r1 where "r1 = (if operator_less (denominator r) (BigInteger_int 0)
                then r\<lparr>numerator := operator_neg (numerator r),
                       denominator := operator_neg (denominator r)\<rparr>
                else r)"
  have less: "operator_less (denominator r) (BigInteger_int 0) = (d < 0)"
    using assms(2) by (simp add: operator_less_correct BigInteger_int_correct d_def)
  have n1: "BigInteger_inv (numerator r1)" "bi_val (numerator r1) = (if d < 0 then - n else n)"
    using assms(1) less by (simp_all add: r1_def operator_neg_correct n_def)
  have d1: "BigInteger_inv (denominator r1)" "bi_val (denominator r1) = \<bar>d\<bar>"
    using assms(2) less by (simp_all add: r1_def operator_neg_correct d_def)
  define g where "g = gcd n d"
  have gpos: "0 < g" using assms(3) by (simp add: g_def d_def)
  have "gcd (bi_val (numerator r1)) (bi_val (denominator r1)) = g"
    by (simp add: n1(2) d1(2) g_def)
  then have gc: "Rational_gcd (numerator r1) (denominator r1) = Some (BigInteger_int g)"
    using Rational_gcd_correct [OF n1(1) d1(1)] by simp
  have ne: "operator_ne (BigInteger_int g) (BigInteger_int 0)"
    using gpos by (simp add: operator_ne_zero BigInteger_int_correct)
  have dv1: "g dvd bi_val (numerator r1)" by (simp add: n1(2) g_def)
  have dv2: "g dvd bi_val (denominator r1)" by (simp add: d1(2) g_def)
  have q1: "operator_div (numerator r1) (BigInteger_int g) 
              = Some (BigInteger_int ((if d < 0 then - n else n) div g))"
    using operator_div_exact [OF n1(1) gpos dv1] by (simp add: n1(2))
  have q2: "operator_div (denominator r1) (BigInteger_int g) = Some (BigInteger_int (\<bar>d\<bar> div g))"
    using operator_div_exact [OF d1(1) gpos dv2] by (simp add: d1(2))
  show ?thesis
    unfolding Rational_normalize_def Let_def r1_def [symmetric] g_def [symmetric]
    by (simp add: gc ne q1 q2)
qed

lemma Rational_normalize_inv:
  assumes "BigInteger_inv (numerator r)" "BigInteger_inv (denominator r)"
    and "bi_val (denominator r) \<noteq> 0"
  shows "\<exists>r'. Rational_normalize r = Some r' \<and> Rational_inv r'"
proof -
  define n where "n = bi_val (numerator r)"
  define d where "d = bi_val (denominator r)"
  define n' where "n' = (if d < 0 then - n else n)"
  define g where "g = gcd n d"
  have e: "Rational_normalize r
           = Some \<lparr>numerator = BigInteger_int (n' div g), denominator = BigInteger_int (\<bar>d\<bar> div g)\<rparr>"
    using Rational_normalize_correct [OF assms] by (simp add: n_def d_def n'_def g_def)
  have g': "g = gcd n' \<bar>d\<bar>" by (simp add: g_def n'_def)
  have dn: "\<bar>d\<bar> \<noteq> 0" using assms(3) by (simp add: d_def)
  have gpos: "0 < g" using dn by (simp add: g')
  have "g dvd \<bar>d\<bar>" by (simp add: g')
  then obtain k where k: "\<bar>d\<bar> = g * k" ..
  have "0 < k" using k gpos dn by (metis abs_ge_zero mult_pos_neg not_less_iff_gr_or_eq mult_zero_right not_less)
  then have dpos: "0 < \<bar>d\<bar> div g" using k gpos by simp
  have "coprime (n' div gcd n' \<bar>d\<bar>) (\<bar>d\<bar> div gcd n' \<bar>d\<bar>)"
    using dn by (intro div_gcd_coprime) simp
  then have cop: "gcd (n' div g) (\<bar>d\<bar> div g) = 1" by (simp add: g' coprime_iff_gcd_eq_1)
  have "Rational_inv \<lparr>numerator = BigInteger_int (n' div g), denominator = BigInteger_int (\<bar>d\<bar> div g)\<rparr>"
    using dpos cop by (simp add: Rational_inv_def BigInteger_int_correct)
  with e show ?thesis by simp
qed

lemma Rational_inv_limbs:
  "Rational_inv r \<Longrightarrow> limbs_ok (m_digits (numerator r)) \<and> limbs_ok (m_digits (denominator r))"
  by (simp add: Rational_inv_def inv_limbs_ok)

lemma Rational_inv_lowest: "Rational_inv r \<Longrightarrow> Rational_lowest r"
  by (simp add: Rational_inv_def Rational_lowest_def inv_normalized)

text \<open>
  \<^verbatim>\<open>normalize\<close> does not tell a negative zero numerator from \<^verbatim>\<open>BigInteger(0)\<close>: the
  negation, the absolute value taken by \<^verbatim>\<open>gcd\<close> and the division by the gcd all return
  what they return on \<^verbatim>\<open>BigInteger(0)\<close>.
\<close>

lemma operator_neg_zero: "is_zero n \<Longrightarrow> operator_neg n = BigInteger_int 0"
  by (cases n) (auto simp: is_zero_iff operator_neg_def operator_ne_def operator_eq_def
      BigInteger_int_def)

lemma Rational_normalize_zero_numerator:
  assumes "is_zero (numerator r)" "BigInteger_inv (denominator r)"
    and "bi_val (denominator r) \<noteq> 0"
  shows "Rational_normalize r = Rational_normalize (r\<lparr>numerator := BigInteger_int 0\<rparr>)"
proof -
  define z where "z = BigInteger_int 0"
  obtain n d where r: "r = \<lparr>numerator = n, denominator = d\<rparr>" by (cases r) simp
  have zn: "is_zero n" and inv: "BigInteger_inv d" "bi_val d \<noteq> 0"
    using assms by (simp_all add: r)
  have zz: "is_zero z" by (simp add: z_def is_zero_def BigInteger_int_def)
  have zi: "BigInteger_inv z" unfolding z_def by (rule BigInteger_int_inv)
  have neg: "operator_neg n = operator_neg z"
    using zn zz by (simp add: operator_neg_zero)
  have ab: "abs_bi n = abs_bi z"
    using zn zz by (simp add: is_zero_abs_bi)
  have "Rational_normalize \<lparr>numerator = n, denominator = d\<rparr>
          = Rational_normalize \<lparr>numerator = z, denominator = d\<rparr>"
  proof (cases "operator_less d z")
    case True
    then show ?thesis
      unfolding Rational_normalize_def Let_def z_def [symmetric]
      by (simp add: neg cong: if_cong)
  next
    case False
    define g where "g = gcd (bi_val z) (bi_val d)"
    have gpos: "0 < g" using inv(2) by (simp add: g_def)
    have gi: "BigInteger_inv (BigInteger_int g)" by (rule BigInteger_int_inv)
    have gv: "bi_val (BigInteger_int g) \<noteq> 0" using gpos by (simp add: bi_val_BigInteger_int)
    have gc: "Rational_gcd z d = Some (BigInteger_int g)"
      using Rational_gcd_correct [OF zi inv(1)] by (simp add: g_def)
    have gc': "Rational_gcd n d = Some (BigInteger_int g)"
      using gc by (simp add: Rational_gcd_def ab)
    have ne: "operator_ne (BigInteger_int g) z"
      using gpos by (simp add: z_def operator_ne_zero BigInteger_int_correct)
    have dv: "operator_div n (BigInteger_int g) = operator_div z (BigInteger_int g)"
      using operator_div_zero_dividend [OF zn gi gv]
            operator_div_zero_dividend [OF zz gi gv] by simp
    show ?thesis
      using False
      unfolding Rational_normalize_def Let_def z_def [symmetric]
      by (simp add: gc gc' dv ne)
  qed
  then show ?thesis by (simp add: r z_def)
qed

lemma Rational_normalize_lowest:
  assumes "normalized (m_digits (numerator r))" "normalized (m_digits (denominator r))"
    and "\<not> is_zero (denominator r)"
  shows "\<exists>r'. Rational_normalize r = Some r' \<and> Rational_inv r'"
proof -
  have di: "BigInteger_inv (denominator r)" using assms(2,3) by (rule normalized_nonzero_inv)
  then have dn: "bi_val (denominator r) \<noteq> 0" using assms(3) by (simp add: is_zero_bi_val)
  show ?thesis
  proof (cases "is_zero (numerator r)")
    case True
    have "\<exists>r'. Rational_normalize (r\<lparr>numerator := BigInteger_int 0\<rparr>) = Some r' \<and> Rational_inv r'"
      using di dn by (intro Rational_normalize_inv) (simp_all add: BigInteger_int_inv)
    then show ?thesis using Rational_normalize_zero_numerator [OF True di dn] by simp
  next
    case False
    with assms(1) have "BigInteger_inv (numerator r)" by (rule normalized_nonzero_inv)
    then show ?thesis using di dn by (rule Rational_normalize_inv)
  qed
qed

lemma Rational_lowest_limbs:
  "Rational_lowest r \<Longrightarrow> limbs_ok (m_digits (numerator r)) \<and> limbs_ok (m_digits (denominator r))"
  by (simp add: Rational_lowest_def normalized_def)

lemma Rational_arith_lowest:
  assumes "Rational_lowest x" "Rational_lowest y"
  shows "\<exists>r. Rational_plus x y = Some r \<and> Rational_inv r"
    and "\<exists>r. Rational_minus x y = Some r \<and> Rational_inv r"
    and "\<exists>r. Rational_mul x y = Some r \<and> Rational_inv r"
    and "bi_val (numerator y) \<noteq> 0 \<Longrightarrow> \<exists>r. Rational_div x y = Some r \<and> Rational_inv r"
    and "bi_val (numerator x) \<noteq> 0 \<Longrightarrow> \<exists>r. Rational_div_self x = Some r \<and> Rational_inv r"
proof -
  note lx = Rational_lowest_limbs [OF assms(1)] and ly = Rational_lowest_limbs [OF assms(2)]
  have dx: "bi_val (denominator x) \<noteq> 0" and dy: "bi_val (denominator y) \<noteq> 0"
    using assms by (simp_all add: Rational_lowest_def)
  from operator_mul_correct [of "numerator x" "denominator y"] lx ly
  obtain t1 where t1: "operator_mul (numerator x) (denominator y) = Some t1" "BigInteger_inv t1"
    by blast
  from operator_mul_correct [of "numerator y" "denominator x"] lx ly
  obtain t2 where t2: "operator_mul (numerator y) (denominator x) = Some t2" "BigInteger_inv t2"
    by blast
  from operator_mul_correct [of "denominator x" "denominator y"] lx ly
  obtain d where d: "operator_mul (denominator x) (denominator y) = Some d" "BigInteger_inv d"
    "bi_val d = bi_val (denominator x) * bi_val (denominator y)" by blast
  have dn: "bi_val d \<noteq> 0" using d(3) dx dy by simp
  have nt: "normalized (m_digits t1)" "normalized (m_digits t2)"
    using t1(2) t2(2) by (simp_all add: inv_normalized)
  have "\<exists>r. Rational_normalize \<lparr>numerator = operator_plus t1 t2, denominator = d\<rparr> = Some r 
            \<and> Rational_inv r"
    using operator_plus_inv [OF nt] d(2) dn by (intro Rational_normalize_inv) simp_all
  then show "\<exists>r. Rational_plus x y = Some r \<and> Rational_inv r"
    by (simp add: Rational_plus_def t1(1) t2(1) d(1))
  have "\<exists>r. Rational_normalize \<lparr>numerator = operator_minus t1 t2, denominator = d\<rparr> = Some r 
            \<and> Rational_inv r"
    using operator_minus_inv [OF nt] d(2) dn by (intro Rational_normalize_inv) simp_all
  then show "\<exists>r. Rational_minus x y = Some r \<and> Rational_inv r"
    by (simp add: Rational_minus_def t1(1) t2(1) d(1))
  from operator_mul_correct [of "numerator x" "numerator y"] lx ly
  obtain n where n: "operator_mul (numerator x) (numerator y) = Some n" "BigInteger_inv n"
    by blast
  have "\<exists>r. Rational_normalize \<lparr>numerator = n, denominator = d\<rparr> = Some r \<and> Rational_inv r"
    using n(2) d(2) dn by (intro Rational_normalize_inv) simp_all
  then show "\<exists>r. Rational_mul x y = Some r \<and> Rational_inv r"
    by (simp add: Rational_mul_def n(1) d(1))
  show "\<exists>r. Rational_div x y = Some r \<and> Rational_inv r" if ny: "bi_val (numerator y) \<noteq> 0"
  proof -
    from operator_mul_correct [of "denominator x" "numerator y"] lx ly
    obtain d' where d': "operator_mul (denominator x) (numerator y) = Some d'" "BigInteger_inv d'"
      "bi_val d' = bi_val (denominator x) * bi_val (numerator y)" by blast
    have "bi_val d' \<noteq> 0" using d'(3) dx ny by simp
    then have "\<exists>r. Rational_normalize \<lparr>numerator = t1, denominator = d'\<rparr> = Some r \<and> Rational_inv r"
      using t1(2) d'(2) by (intro Rational_normalize_inv) simp_all
    then show ?thesis by (simp add: Rational_div_def t1(1) d'(1))
  qed
  show "\<exists>r. Rational_div_self x = Some r \<and> Rational_inv r" if nx: "bi_val (numerator x) \<noteq> 0"
  proof -
    from operator_mul_correct [of "numerator x" "denominator x"] lx
    obtain m where m: "operator_mul (numerator x) (denominator x) = Some m" "BigInteger_inv m"
      "bi_val m = bi_val (numerator x) * bi_val (denominator x)" by blast
    from operator_mul_correct [of "denominator x" m] lx inv_limbs_ok [OF m(2)]
    obtain e where e: "operator_mul (denominator x) m = Some e" "BigInteger_inv e"
      "bi_val e = bi_val (denominator x) * bi_val m" by blast
    have "bi_val e \<noteq> 0" using e(3) m(3) dx nx by simp
    then have "\<exists>r. Rational_normalize \<lparr>numerator = m, denominator = e\<rparr> = Some r \<and> Rational_inv r"
      using m(2) e(2) by (intro Rational_normalize_inv) simp_all
    then show ?thesis by (simp add: Rational_div_self_def m(1) e(1))
  qed
qed

lemma Rational_ctor_lowest:
  shows "Rational_lowest Rational_default"
    and "- INT_MAX \<le> i \<Longrightarrow> i \<le> INT_MAX \<Longrightarrow>
         Rational_int i = Some \<lparr>numerator = BigInteger_int i, denominator = BigInteger_int 1\<rparr>
         \<and> Rational_lowest \<lparr>numerator = BigInteger_int i, denominator = BigInteger_int 1\<rparr>"
    and "normalized (m_digits n) \<Longrightarrow> Rational_lowest (Rational_BigInteger n)"
  by (simp_all add: Rational_lowest_def Rational_default_def Rational_int_def
      BigInteger_int_ctor_def Rational_BigInteger_def BigInteger_int_correct
      inv_normalized [OF BigInteger_int_inv])

section \<open>Rational: decimal expansion\<close>

lemma length_frac_digits [simp]: "length (frac_digits p r d) = p"
  by (induction p arbitrary: r) simp_all

lemma frac_digits_lt: "r < d \<Longrightarrow> x \<in> set (frac_digits p r d) \<Longrightarrow> x < 10"
proof (induction p arbitrary: r)
  case 0
  then show ?case by simp
next
  case (Suc p)
  have "10 * r < 10 * d" using Suc.prems(1) by simp
  then have q: "(10 * r) div d < 10" by (simp add: less_mult_imp_div_less mult.commute)
  have "(10 * r) mod d < d" using Suc.prems(1) by simp
  from Suc.IH [OF this] q Suc.prems(2) show ?case by auto
qed

lemma frac_digits_nth:
  "0 < d \<Longrightarrow> i < p \<Longrightarrow> frac_digits p (a mod d) d ! i = (a * 10 ^ Suc i div d) mod 10"
proof (induction p arbitrary: a i)
  case 0
  then show ?case by simp
next
  case (Suc p)
  define q where "q = a div d"
  define r where "r = a mod d"
  have a: "a = d * q + r" by (simp add: q_def r_def)
  have rd: "r < d" using Suc.prems(1) by (simp add: r_def)
  show ?case
  proof (cases i)
    case 0
    have "10 * r < 10 * d" using rd by simp
    then have lt: "(10 * r) div d < 10" by (simp add: less_mult_imp_div_less mult.commute)
    have "a * 10 = d * (q * 10) + 10 * r" by (simp add: a algebra_simps)
    then have "a * 10 div d = q * 10 + (10 * r) div d"
      using Suc.prems(1) by simp
    then have "(a * 10 div d) mod 10 = (10 * r) div d" using lt by simp
    then show ?thesis using 0 by (simp add: r_def)
  next
    case (Suc j)
    then have j: "j < p" using Suc.prems(2) by simp
    have ih: "frac_digits p ((10 * r) mod d) d ! j = ((10 * r) * 10 ^ Suc j div d) mod 10"
      using Suc.IH [OF Suc.prems(1) j, of "10 * r"] .
    have "a * 10 ^ Suc (Suc j) = d * (q * 10 ^ Suc (Suc j)) + (10 * r) * 10 ^ Suc j"
      by (simp add: a algebra_simps)
    then have "a * 10 ^ Suc (Suc j) div d = q * 10 ^ Suc (Suc j) + (10 * r) * 10 ^ Suc j div d"
      using Suc.prems(1) by simp
    moreover have "(q * 10 ^ Suc (Suc j)) mod 10 = 0" by simp
    ultimately have "(a * 10 ^ Suc (Suc j) div d) mod 10 = ((10 * r) * 10 ^ Suc j div d) mod 10"
      by (metis add_cancel_left_left mod_add_left_eq)
    then show ?thesis using Suc ih by (simp add: r_def)
  qed
qed

lemma toString_decimal: "BigInteger_inv x \<Longrightarrow> toString x = Some (decimal_of_int (bi_val x))"
  using toString_correct [of x] bi_val_abs [of x] inv_negative_iff [of x]
  by (simp add: decimal_of_int_def)

lemma operator_div_int:
  assumes "BigInteger_inv x" "BigInteger_inv y" "bi_val y \<noteq> 0"
  shows "operator_div x y = Some (BigInteger_int (tdiv (bi_val x) (bi_val y)))"
  using operator_div_correct [OF assms] inv_eq_BigInteger_int by force

lemma operator_mod_int:
  assumes "BigInteger_inv x" "BigInteger_inv y" "bi_val y \<noteq> 0"
  shows "operator_mod x y = Some (BigInteger_int (tmod (bi_val x) (bi_val y)))"
  using operator_mod_correct [OF assms] inv_eq_BigInteger_int by force

lemma asDecimal_loop_correct:
  assumes "BigInteger_inv den" "0 < bi_val den"
  shows "int r < bi_val den \<Longrightarrow>
         asDecimal_loop p (BigInteger_int (int (10 * r))) den result
           = Some (result @ map digit_char (frac_digits p r (nat (bi_val den))))"
proof (induction p arbitrary: r result)
  case 0
  then show ?case by (simp add: asDecimal_loop.simps)
next
  case (Suc p)
  define d where "d = nat (bi_val den)"
  have d: "bi_val den = int d" "0 < d" using assms(2) by (simp_all add: d_def)
  have rd: "r < d" using Suc.prems d by simp
  define num where "num = BigInteger_int (int (10 * r))"
  have ni: "BigInteger_inv num" "bi_val num = int (10 * r)"
    by (simp_all add: num_def BigInteger_int_correct)
  have dn: "bi_val den \<noteq> 0" using assms(2) by simp
  define q where "q = (10 * r) div d"
  define r' where "r' = (10 * r) mod d"
  have "10 * r < 10 * d" using rd by simp
  then have q10: "q < 10" by (simp add: q_def less_mult_imp_div_less mult.commute)
  have dv: "operator_div num den = Some (BigInteger_int (int q))"
    using operator_div_int [OF ni(1) assms(1) dn]
    by (simp add: ni(2) d tdiv_nonneg q_def zdiv_int)
  have md: "operator_mod num den = Some (BigInteger_int (int r'))"
    using operator_mod_int [OF ni(1) assms(1) dn]
    by (simp add: ni(2) d tmod_nonneg r'_def zmod_int)
  have ts: "toString (BigInteger_int (int q)) = Some [digit_char q]"
    using toString_decimal [OF BigInteger_int_inv, of "int q"] q10
    by (simp add: bi_val_BigInteger_int decimal_of_int_def to_string_small)
  have ml: "operator_mul (BigInteger_int (int r')) (BigInteger_int 10) 
              = Some (BigInteger_int (int (10 * r')))"
    using operator_mul_int [OF inv_limbs_ok [OF BigInteger_int_inv], of "int r'" 10]
    by (simp add: bi_val_BigInteger_int mult.commute)
  have r'd: "int r' < bi_val den" using d by (simp add: r'_def)
  have "asDecimal_loop (Suc p) num den result
          = asDecimal_loop p (BigInteger_int (int (10 * r'))) den (result @ [digit_char q])"
    by (simp add: asDecimal_loop.simps dv ts md ml)
  also have "\<dots> = Some ((result @ [digit_char q]) @ map digit_char (frac_digits p r' d))"
    using Suc.IH [OF r'd] by (simp add: d_def)
  finally show ?case by (simp add: num_def q_def r'_def d_def)
qed

lemma tmod_abs: "0 < d \<Longrightarrow> \<bar>tmod n d\<bar> = \<bar>n\<bar> mod d"
  by (cases "n = 0") (simp_all add: tmod_def abs_mult)

lemma asDecimal_correct:
  assumes "BigInteger_inv (numerator r)" "BigInteger_inv (denominator r)"
    and "0 < bi_val (denominator r)" "0 < p"
  shows "asDecimal r p
           = Some (asDecimal_spec (bi_val (numerator r)) (bi_val (denominator r)) p)"
proof -
  define n where "n = bi_val (numerator r)"
  define d where "d = bi_val (denominator r)"
  have dn: "bi_val (denominator r) \<noteq> 0" using assms(3) by simp
  define ip where "ip = BigInteger_int (tdiv n d)"
  define num1 where "num1 = BigInteger_int (tmod n d)"
  have dv: "operator_div (numerator r) (denominator r) = Some ip"
    using operator_div_int [OF assms(1,2) dn] by (simp add: ip_def n_def d_def)
  have md: "operator_mod (numerator r) (denominator r) = Some num1"
    using operator_mod_int [OF assms(1,2) dn] by (simp add: num1_def n_def d_def)
  have ts: "toString ip = Some (decimal_of_int (tdiv n d))"
    using toString_decimal [OF BigInteger_int_inv, of "tdiv n d"]
    by (simp add: ip_def bi_val_BigInteger_int)
  have less: "operator_less num1 (BigInteger_int 0) = (tmod n d < 0)"
    by (simp add: num1_def operator_less_correct BigInteger_int_correct)
  have eq: "operator_eq ip (BigInteger_int 0) = (tdiv n d = 0)"
    by (simp add: ip_def operator_eq_correct BigInteger_int_correct)
  have sign: "(tmod n d < 0 \<and> tdiv n d = 0) = (n < 0 \<and> tdiv n d = 0)"
    using tdiv_tmod [of n d] by auto
  define rr where "rr = nat (\<bar>n\<bar> mod d)"
  have dpos: "0 < d" using assms(3) by (simp add: d_def)
  have rr: "int rr = \<bar>tmod n d\<bar>" using dpos by (simp add: rr_def tmod_abs)
  have ai: "BigInteger_inv (abs_bi num1)" "bi_val (abs_bi num1) = int rr"
    using abs_bi_correct [OF BigInteger_int_inv, of "tmod n d"]
    by (simp_all add: num1_def bi_val_BigInteger_int rr)
  have ml: "operator_mul (abs_bi num1) (BigInteger_int 10) = Some (BigInteger_int (int (10 * rr)))"
    using operator_mul_int [OF inv_limbs_ok [OF ai(1)], of 10]
    by (simp add: ai(2) mult.commute)
  have rlt: "int rr < bi_val (denominator r)"
    using dpos by (simp add: rr_def d_def [symmetric])
  define pre where "pre = (if n < 0 \<and> tdiv n d = 0 then ''-'' else [])"
  have "asDecimal r p
          = asDecimal_loop p (BigInteger_int (int (10 * rr))) (denominator r)
              ((pre @ decimal_of_int (tdiv n d)) @ ''.'')"
    using assms(4) by (simp add: asDecimal_def dv md ts less eq sign ml pre_def)
  also have "\<dots> = Some (((pre @ decimal_of_int (tdiv n d)) @ ''.'')
                       @ map digit_char (frac_digits p rr (nat (bi_val (denominator r)))))"
    using assms(2,3) rlt by (rule asDecimal_loop_correct)
  also have "((pre @ decimal_of_int (tdiv n d)) @ ''.'')
                @ map digit_char (frac_digits p rr (nat (bi_val (denominator r))))
             = asDecimal_spec n d p"
    by (simp add: asDecimal_spec_def pre_def rr_def d_def)
  finally show ?thesis by (simp add: n_def d_def)
qed

lemma frac_digits_numeral:
  "frac_digits (numeral k) r d
     = (10 * r) div d # frac_digits (pred_numeral k) ((10 * r) mod d) d"
  using frac_digits.simps(2) [of "pred_numeral k" r d] by (simp only: numeral_eq_Suc)

section \<open>The claims of the specification\<close>

lemmas eval_simps = BigInteger_int_def BigInteger_int_loop.simps CELL_BASE_def CELL_LEN_def
  operator_div_def operator_mod_def operator_eq_def operator_ne_def operator_less_def operator_le_def
  operator_gt_def operator_ge_def abs_bi_def Let_def operator_mul_def mul_outer.simps
  mul_inner.simps resize_def remove_leading_zeroes_def operator_minus_def operator_plus_def
  operator_neg_def is_zero_def add_abs_def sub_abs_def sub_abs_loop.simps add_abs_loop.simps
  BigInteger_default_def shift_left_def div_search.simps div_loop.simps BigInteger_string_def
  BigInteger_string_loop.simps is_correct_str_def isdigit_def stoul_def toString_def
  pad_cell_def to_string.simps digit_char_eval digit_char_Suc0 asDecimal_loop_numeral
  gcd_loop.simps Rational_gcd_def
  Rational_normalize_def Rational_pair_def Rational_toString_def asDecimal_def
  asDecimal_loop.simps Rational_plus_def Rational_minus_def Rational_mul_def Rational_div_def

lemmas inv_eval = BigInteger_inv_def normalized_def limbs_ok_def

text \<open>
  Claim C8. A string with a character that is neither a decimal digit nor a sign in first
  position is rejected by \<^verbatim>\<open>is_correct_str\<close>, and the string constructor then returns
  the default-constructed value zero (limbs \<open>[0]\<close>, sign cleared); the constructor has no
  way of reporting the rejection.
\<close>

theorem string_ctor_malformed_gives_zero:
  assumes "i < length s" "\<not> isdigit (s ! i)"
    and "\<not> (i = 0 \<and> (s ! 0 = CHR ''-'' \<or> s ! 0 = CHR ''+''))"
  shows "BigInteger_string s = \<lparr>m_digits = [0], m_negative = False\<rparr>"
  using is_correct_str_bad_char [OF assms]
  by (simp add: BigInteger_string_def BigInteger_default_def)

theorem string_ctor_malformed_witness:
  "BigInteger_string ''12a4'' = \<lparr>m_digits = [0], m_negative = False\<rparr>
   \<and> BigInteger_string ''1-2'' = \<lparr>m_digits = [0], m_negative = False\<rparr>"
proof -
  have a: "\<not> isdigit (''12a4'' ! 2)" by (simp add: isdigit_def)
  have b: "\<not> isdigit (''1-2'' ! 1)" by (simp add: isdigit_def)
  show ?thesis
    using string_ctor_malformed_gives_zero [of 2 "''12a4''", OF _ a]
          string_ctor_malformed_gives_zero [of 1 "''1-2''", OF _ b]
    by simp
qed

text \<open>
  Claim C6. The canonical-zero invariant (a zero magnitude never carries the sign flag)
  is stated for every input string of the string constructor. On the string \<open>''-''\<close> the
  constructor sets the sign, reads no digit, skips \<^verbatim>\<open>remove_leading_zeroes\<close> on the empty
  vector and pushes the limb 0 without clearing the sign: the result is a negative zero,
  which \<^verbatim>\<open>is_zero\<close> accepts and \<^verbatim>\<open>operator==\<close> tells apart from \<^verbatim>\<open>BigInteger(0)\<close>.
\<close>

theorem string_ctor_lone_minus_is_negative_zero:
  "BigInteger_string ''-'' = \<lparr>m_digits = [0], m_negative = True\<rparr>
   \<and> is_zero (BigInteger_string ''-'')
   \<and> m_negative (BigInteger_string ''-'')
   \<and> \<not> operator_eq (BigInteger_string ''-'') (BigInteger_int 0)"
  by (simp add: eval_simps)

text \<open>
  Claim C10. Zero divided by zero takes the equal-magnitudes path of \<^verbatim>\<open>operator/=\<close> and
  reports no error, but the result is not \<^verbatim>\<open>BigInteger(1)\<close> for every pair of zero
  operands. The path stores the limb 1 together with the sign flag
  \<^verbatim>\<open>m_negative != other.m_negative\<close>, and \<^verbatim>\<open>is_zero\<close> reads the limbs only: it also holds
  of the negative zero that the string constructor returns on a lone minus sign, and
  that zero divided by \<^verbatim>\<open>BigInteger(0)\<close> is \<open>-1\<close>.
\<close>

theorem zero_div_zero_not_one:
  "is_zero (BigInteger_string ''-'') \<and> is_zero (BigInteger_int 0)
   \<and> operator_div (BigInteger_string ''-'') (BigInteger_int 0)
        = Some \<lparr>m_digits = [1], m_negative = True\<rparr>
   \<and> operator_div (BigInteger_string ''-'') (BigInteger_int 0) \<noteq> Some (BigInteger_int 1)"
  by (simp add: eval_simps)

text \<open>
  Claim C10, as amended: when both operands are zero, \<open>a / b\<close> is the single limb 1 with
  the sign flag \<^verbatim>\<open>m_negative(a) != m_negative(b)\<close>, so \<^verbatim>\<open>BigInteger(0) / BigInteger(0)\<close> is
  \<^verbatim>\<open>BigInteger(1)\<close>; \<open>a % b\<close> is then \<open>a - (a / b) * b\<close>, which is \<^verbatim>\<open>BigInteger(0)\<close> for
  every pair of zero operands. Neither reports an error.
\<close>

theorem zero_div_zero_result:
  "(\<forall>a b. is_zero a \<and> is_zero b \<longrightarrow>
       operator_div a b
         = Some \<lparr>m_digits = [1], m_negative = (m_negative a \<noteq> m_negative b)\<rparr>
     \<and> operator_mod a b = Some \<lparr>m_digits = [0], m_negative = False\<rparr>)
   \<and> operator_div (BigInteger_int 0) (BigInteger_int 0) = Some (BigInteger_int 1)
   \<and> BigInteger_int 1 = \<lparr>m_digits = [1], m_negative = False\<rparr>
   \<and> operator_mod (BigInteger_int 0) (BigInteger_int 0) = Some (BigInteger_int 0)
   \<and> BigInteger_int 0 = \<lparr>m_digits = [0], m_negative = False\<rparr>"
proof (intro conjI allI impI)
  fix a b
  assume h: "is_zero a \<and> is_zero b"
  then have a: "is_zero a" and b: "is_zero b" by simp_all
  show "operator_div a b
         = Some \<lparr>m_digits = [1], m_negative = (m_negative a \<noteq> m_negative b)\<rparr>"
    using a b by (rule zero_div_zero)
  show "operator_mod a b = Some \<lparr>m_digits = [0], m_negative = False\<rparr>"
    using a b by (rule zero_div_zero)
qed (simp_all add: eval_simps)

theorem zero_div_zero_result_witness:
  "is_zero (BigInteger_int 0) \<and> is_zero (BigInteger_string ''-'')
   \<and> operator_div (BigInteger_int 0) (BigInteger_string ''-'')
        = Some \<lparr>m_digits = [1], m_negative = True\<rparr>
   \<and> operator_mod (BigInteger_int 0) (BigInteger_string ''-'')
        = Some \<lparr>m_digits = [0], m_negative = False\<rparr>"
proof -
  have h: "is_zero (BigInteger_int 0) \<and> is_zero (BigInteger_string ''-'')"
    by (simp add: eval_simps)
  have s: "m_negative (BigInteger_int 0) \<noteq> m_negative (BigInteger_string ''-'')"
    by (simp add: eval_simps)
  from zero_div_zero_result h
  have "operator_div (BigInteger_int 0) (BigInteger_string ''-'')
         = Some \<lparr>m_digits = [1], 
                 m_negative = (m_negative (BigInteger_int 0) \<noteq> m_negative (BigInteger_string ''-''))\<rparr>
     \<and> operator_mod (BigInteger_int 0) (BigInteger_string ''-'')
         = Some \<lparr>m_digits = [0], m_negative = False\<rparr>"
    by blast
  with h s show ?thesis by simp
qed

text \<open>
  The truncated division law on canonical operands. For canonical \<open>a\<close> and canonical
  non-zero \<open>b\<close>, \<open>a / b\<close> and \<open>a % b\<close> return values, \<open>a == (a / b) * b + (a % b)\<close> holds,
  the quotient is the mathematical quotient truncated toward zero, and a non-zero
  remainder has the sign of \<open>a\<close>. In particular \<open>-5 / 2 = -2\<close> and \<open>-5 % 2 = -1\<close>.
\<close>

lemma truncated_division_canonical:
  "(\<forall>a b. BigInteger_inv a \<and> BigInteger_inv b \<and> \<not> is_zero b \<longrightarrow>
      (\<exists>q r p. operator_div a b = Some q \<and> operator_mod a b = Some r
         \<and> operator_mul q b = Some p
         \<and> operator_eq a (operator_plus p r)
         \<and> bi_val q = tdiv (bi_val a) (bi_val b)
         \<and> (\<not> is_zero r \<longrightarrow> m_negative r = m_negative a)))
   \<and> operator_div (BigInteger_string ''-5'') (BigInteger_string ''2'')
        = Some (BigInteger_string ''-2'')
   \<and> operator_mod (BigInteger_string ''-5'') (BigInteger_string ''2'')
        = Some (BigInteger_string ''-1'')"
proof (intro conjI allI impI)
  fix a b
  assume h: "BigInteger_inv a \<and> BigInteger_inv b \<and> \<not> is_zero b"
  then have a: "BigInteger_inv a" and b: "BigInteger_inv b" by simp_all
  have nz: "bi_val b \<noteq> 0" using is_zero_bi_val [OF b] h by simp
  from operator_div_correct [OF a b nz]
  obtain q where q: "operator_div a b = Some q" "BigInteger_inv q"
    "bi_val q = tdiv (bi_val a) (bi_val b)" by blast
  from operator_mod_correct [OF a b nz]
  obtain r where r: "operator_mod a b = Some r" "BigInteger_inv r"
    "bi_val r = tmod (bi_val a) (bi_val b)" by blast
  from operator_mul_correct [OF inv_limbs_ok [OF q(2)] inv_limbs_ok [OF b]]
  obtain p where p: "operator_mul q b = Some p" "BigInteger_inv p"
    "bi_val p = bi_val q * bi_val b" by blast
  have n: "normalized (m_digits p)" "normalized (m_digits r)"
    using p(2) r(2) by (simp_all add: inv_normalized)
  have "bi_val (operator_plus p r) = bi_val a"
    using bi_val_operator_plus [OF n] p(3) q(3) r(3) tdiv_tmod [of "bi_val a" "bi_val b"]
    by simp
  then have eq: "operator_eq a (operator_plus p r)"
    using a operator_plus_inv [OF n] by (simp add: operator_eq_correct)
  have sign: "\<not> is_zero r \<longrightarrow> m_negative r = m_negative a"
    using tmod_sign [of "bi_val a" "bi_val b"] r(2,3) a
    by (simp add: is_zero_bi_val inv_negative_iff)
  show "\<exists>q r p. operator_div a b = Some q \<and> operator_mod a b = Some r
         \<and> operator_mul q b = Some p
         \<and> operator_eq a (operator_plus p r)
         \<and> bi_val q = tdiv (bi_val a) (bi_val b)
         \<and> (\<not> is_zero r \<longrightarrow> m_negative r = m_negative a)"
    using q(1,3) r(1) p(1) eq sign by blast
next
  show "operator_div (BigInteger_string ''-5'') (BigInteger_string ''2'')
        = Some (BigInteger_string ''-2'')"
    by (simp add: eval_simps)
  show "operator_mod (BigInteger_string ''-5'') (BigInteger_string ''2'')
        = Some (BigInteger_string ''-1'')"
    by (simp add: eval_simps)
qed

lemma truncated_division_canonical_instance:
  "BigInteger_inv (BigInteger_string ''-7000000000000'')
   \<and> BigInteger_inv (BigInteger_string ''3'')
   \<and> \<not> is_zero (BigInteger_string ''3'')
   \<and> (\<exists>q r p. operator_div (BigInteger_string ''-7000000000000'') (BigInteger_string ''3'') = Some q
         \<and> operator_mod (BigInteger_string ''-7000000000000'') (BigInteger_string ''3'') = Some r
         \<and> operator_mul q (BigInteger_string ''3'') = Some p
         \<and> operator_eq (BigInteger_string ''-7000000000000'') (operator_plus p r)
         \<and> bi_val q = tdiv (bi_val (BigInteger_string ''-7000000000000'')) (bi_val (BigInteger_string ''3''))
         \<and> (\<not> is_zero r \<longrightarrow> m_negative r = m_negative (BigInteger_string ''-7000000000000'')))"
proof -
  have h: "BigInteger_inv (BigInteger_string ''-7000000000000'')
     \<and> BigInteger_inv (BigInteger_string ''3'')
     \<and> \<not> is_zero (BigInteger_string ''3'')"
    by (simp add: eval_simps inv_eval)
  from truncated_division_canonical
  have "\<forall>a b. BigInteger_inv a \<and> BigInteger_inv b \<and> \<not> is_zero b \<longrightarrow>
      (\<exists>q r p. operator_div a b = Some q \<and> operator_mod a b = Some r
         \<and> operator_mul q b = Some p
         \<and> operator_eq a (operator_plus p r)
         \<and> bi_val q = tdiv (bi_val a) (bi_val b)
         \<and> (\<not> is_zero r \<longrightarrow> m_negative r = m_negative a))"
    by (rule conjunct1)
  with h show ?thesis by blast
qed

text \<open>
  Claim C1. The truncated division law is stated for every BigInteger \<open>a\<close>. It holds
  for every canonical \<open>a\<close>, as shown above, but the string constructor returns a
  negative zero on a lone minus sign. For that dividend and the divisor 2 the quotient is
  \<^verbatim>\<open>BigInteger(0)\<close> by the \<^verbatim>\<open>a < b\<close> path of \<^verbatim>\<open>operator/=\<close>, the remainder is
  \<^verbatim>\<open>BigInteger(0)\<close> because \<^verbatim>\<open>operator-=\<close> clears the sign of a zero result, and
  \<open>(a / b) * b + a % b\<close> is \<^verbatim>\<open>BigInteger(0)\<close>, which \<^verbatim>\<open>operator==\<close> tells apart from \<open>a\<close>.
\<close>

theorem truncated_division_law_negative_zero:
  "BigInteger_string ''-'' = \<lparr>m_digits = [0], m_negative = True\<rparr>
   \<and> \<not> is_zero (BigInteger_string ''2'')
   \<and> operator_div (BigInteger_string ''-'') (BigInteger_string ''2'') = Some (BigInteger_int 0)
   \<and> operator_mod (BigInteger_string ''-'') (BigInteger_string ''2'') = Some (BigInteger_int 0)
   \<and> operator_mul (BigInteger_int 0) (BigInteger_string ''2'') = Some (BigInteger_int 0)
   \<and> operator_plus (BigInteger_int 0) (BigInteger_int 0) = BigInteger_int 0
   \<and> BigInteger_int 0 = \<lparr>m_digits = [0], m_negative = False\<rparr>
   \<and> \<not> operator_eq (BigInteger_string ''-'') (BigInteger_int 0)"
  by (simp add: eval_simps)

text \<open>
  Claim C2. \<open>a + b\<close> is the exact integer sum, but the shared sign is not kept in every
  case: \<^verbatim>\<open>add_abs\<close> ends with \<^verbatim>\<open>remove_leading_zeroes\<close>, which clears the sign flag of a
  zero result. The sum of two negative zeros, which the string constructor returns on a
  lone minus sign, is \<^verbatim>\<open>BigInteger(0)\<close> with the flag cleared.
\<close>

theorem operator_plus_negative_zeros:
  "m_negative (BigInteger_string ''-'')
   \<and> operator_plus (BigInteger_string ''-'') (BigInteger_string ''-'')
        = \<lparr>m_digits = [0], m_negative = False\<rparr>
   \<and> m_negative (operator_plus (BigInteger_string ''-'') (BigInteger_string ''-''))
        \<noteq> m_negative (BigInteger_string ''-'')"
  by (simp add: eval_simps)

text \<open>
  Claim C2, as amended. For all \<open>a\<close> and \<open>b\<close> with normalised limb vectors (every value
  the operations return, the negative zero included), \<open>a + b\<close> is canonical and its value
  is the integer sum. When the signs match the result is \<^verbatim>\<open>add_abs\<close>: the magnitudes are
  added and the shared sign is kept unless the sum is zero, whose sign flag is cleared.
  When the signs differ the smaller magnitude is subtracted from the larger by
  \<^verbatim>\<open>sub_abs\<close> and the result has the sign of the operand with the larger magnitude;
  equal magnitudes give \<^verbatim>\<open>BigInteger(0)\<close>. In particular \<open>999999999 + 1 = 1000000000\<close>.
\<close>

theorem operator_plus_exact:
  "(\<forall>a b. normalized (m_digits a) \<and> normalized (m_digits b) \<longrightarrow>
      BigInteger_inv (operator_plus a b)
      \<and> bi_val (operator_plus a b) = bi_val a + bi_val b
      \<and> (m_negative a = m_negative b \<longrightarrow>
            operator_plus a b = add_abs a b
            \<and> lv (m_digits (operator_plus a b)) = lv (m_digits a) + lv (m_digits b)
            \<and> m_negative (operator_plus a b)
                = (m_negative a \<and> lv (m_digits a) + lv (m_digits b) \<noteq> 0))
      \<and> (m_negative a \<noteq> m_negative b \<and> lv (m_digits b) < lv (m_digits a) \<longrightarrow>
            operator_plus a b = sub_abs a b
            \<and> lv (m_digits (operator_plus a b)) = lv (m_digits a) - lv (m_digits b)
            \<and> m_negative (operator_plus a b) = m_negative a)
      \<and> (m_negative a \<noteq> m_negative b \<and> lv (m_digits a) < lv (m_digits b) \<longrightarrow>
            m_digits (operator_plus a b) = m_digits (sub_abs b a)
            \<and> lv (m_digits (operator_plus a b)) = lv (m_digits b) - lv (m_digits a)
            \<and> m_negative (operator_plus a b) = m_negative b)
      \<and> (m_negative a \<noteq> m_negative b \<and> lv (m_digits a) = lv (m_digits b) \<longrightarrow>
            operator_plus a b = \<lparr>m_digits = [0], m_negative = False\<rparr>))
   \<and> operator_plus (BigInteger_string ''999999999'') (BigInteger_string ''1'')
        = BigInteger_string ''1000000000''"
proof (intro conjI allI impI)
  show "operator_plus (BigInteger_string ''999999999'') (BigInteger_string ''1'')
        = BigInteger_string ''1000000000''"
    by (simp add: eval_simps)
next
  fix a b :: BigInteger
  assume "normalized (m_digits a) \<and> normalized (m_digits b)"
  then have n: "normalized (m_digits a)" "normalized (m_digits b)" by simp_all
  show "BigInteger_inv (operator_plus a b)" using n by (rule operator_plus_inv)
  show "bi_val (operator_plus a b) = bi_val a + bi_val b" using n by (rule bi_val_operator_plus)
next
  fix a b :: BigInteger
  assume h: "normalized (m_digits a) \<and> normalized (m_digits b)"
    and s: "m_negative a = m_negative b"
  have ne: "m_digits a \<noteq> []" using h by (simp add: normalized_def)
  show e: "operator_plus a b = add_abs a b" using s by (simp add: operator_plus_def)
  show "lv (m_digits (operator_plus a b)) = lv (m_digits a) + lv (m_digits b)"
    unfolding e using ne by (rule add_abs_correct)
  show "m_negative (operator_plus a b)
          = (m_negative a \<and> lv (m_digits a) + lv (m_digits b) \<noteq> 0)"
    unfolding e using ne by (rule add_abs_correct)
next
  fix a b :: BigInteger
  assume h: "normalized (m_digits a) \<and> normalized (m_digits b)" 
    and s: "m_negative a \<noteq> m_negative b \<and> lv (m_digits b) < lv (m_digits a)"
  then have n: "normalized (m_digits a)" "normalized (m_digits b)" by simp_all
  have le: "lv (m_digits b) \<le> lv (m_digits a)" using s by simp
  show e: "operator_plus a b = sub_abs a b"
    using s operator_less_abs [OF n] by (simp add: operator_plus_def)
  show v: "lv (m_digits (operator_plus a b)) = lv (m_digits a) - lv (m_digits b)"
    unfolding e using sub_abs_correct(2) [OF n le] by simp
  show "m_negative (operator_plus a b) = m_negative a"
    using v s sub_abs_correct(3) [OF n le] by (simp add: e)
next
  fix a b :: BigInteger
  assume h: "normalized (m_digits a) \<and> normalized (m_digits b)" 
    and s: "m_negative a \<noteq> m_negative b \<and> lv (m_digits a) < lv (m_digits b)"
  then have n: "normalized (m_digits a)" "normalized (m_digits b)" by simp_all
  have le: "lv (m_digits a) \<le> lv (m_digits b)" using s by simp
  have e: "operator_plus a b = (sub_abs b a)\<lparr>m_negative := m_negative b\<rparr>"
    using s operator_less_abs [OF n] by (simp add: operator_plus_def)
  show "m_digits (operator_plus a b) = m_digits (sub_abs b a)" by (simp add: e)
  show "lv (m_digits (operator_plus a b)) = lv (m_digits b) - lv (m_digits a)"
    using sub_abs_correct(2) [OF n(2,1) le] by (simp add: e)
  show "m_negative (operator_plus a b) = m_negative b" by (simp add: e)
next
  fix a b :: BigInteger
  assume h: "normalized (m_digits a) \<and> normalized (m_digits b)" 
    and s: "m_negative a \<noteq> m_negative b \<and> lv (m_digits a) = lv (m_digits b)"
  then have n: "normalized (m_digits a)" "normalized (m_digits b)" by simp_all
  have "bi_val a + bi_val b = 0" using s by (auto simp: bi_val_def)
  then have "bi_val (operator_plus a b) = 0" using bi_val_operator_plus [OF n] by simp
  then have "operator_plus a b = BigInteger_int 0"
    using inv_eq_BigInteger_int [OF operator_plus_inv [OF n]] by simp
  then show "operator_plus a b = \<lparr>m_digits = [0], m_negative = False\<rparr>"
    by (simp add: BigInteger_int_def)
qed

theorem operator_plus_exact_witness:
  "normalized (m_digits (BigInteger_string ''-1000000000000000005''))
   \<and> normalized (m_digits (BigInteger_string ''999999999999''))
   \<and> operator_plus (BigInteger_string ''-1000000000000000005'') (BigInteger_string ''999999999999'')
        = BigInteger_string ''-999999000000000006''
   \<and> bi_val (operator_plus (BigInteger_string ''-1000000000000000005'') (BigInteger_string ''999999999999''))
        = bi_val (BigInteger_string ''-1000000000000000005'') + bi_val (BigInteger_string ''999999999999'')
   \<and> normalized (m_digits (BigInteger_string ''-''))
   \<and> BigInteger_inv (operator_plus (BigInteger_string ''-'') (BigInteger_string ''-''))
   \<and> bi_val (operator_plus (BigInteger_string ''-'') (BigInteger_string ''-''))
        = bi_val (BigInteger_string ''-'') + bi_val (BigInteger_string ''-'')"
proof -
  have h: "normalized (m_digits (BigInteger_string ''-1000000000000000005''))
     \<and> normalized (m_digits (BigInteger_string ''999999999999''))"
    by (simp add: eval_simps inv_eval)
  have z: "normalized (m_digits (BigInteger_string ''-''))
     \<and> normalized (m_digits (BigInteger_string ''-''))"
    by (simp add: eval_simps inv_eval)
  have e: "operator_plus (BigInteger_string ''-1000000000000000005'') (BigInteger_string ''999999999999'')
        = BigInteger_string ''-999999000000000006''"
    by (simp add: eval_simps)
  note t = operator_plus_exact
  from t h
  have v: "bi_val (operator_plus (BigInteger_string ''-1000000000000000005'') (BigInteger_string ''999999999999''))
        = bi_val (BigInteger_string ''-1000000000000000005'') + bi_val (BigInteger_string ''999999999999'')"
    by blast
  from t z
  have w: "BigInteger_inv (operator_plus (BigInteger_string ''-'') (BigInteger_string ''-''))
     \<and> bi_val (operator_plus (BigInteger_string ''-'') (BigInteger_string ''-''))
        = bi_val (BigInteger_string ''-'') + bi_val (BigInteger_string ''-'')"
    by blast
  from h z e v w show ?thesis by blast
qed

text \<open>
  Claim C4. Addition is commutative and associative and multiplication is commutative,
  with \<^verbatim>\<open>operator==\<close> as the equality, and the products are returned (the multiplication
  never leaves its result vector). The laws need only a normalised limb vector in each
  operand, so they also cover the negative zero that the string constructor can return.
\<close>

theorem plus_mul_laws:
  assumes "normalized (m_digits a)" "normalized (m_digits b)" "normalized (m_digits c)"
  shows "operator_eq (operator_plus a b) (operator_plus b a)
       \<and> operator_eq (operator_plus (operator_plus a b) c) (operator_plus a (operator_plus b c))
       \<and> (\<exists>p q. operator_mul a b = Some p \<and> operator_mul b a = Some q \<and> operator_eq p q)"
proof -
  note n = assms
  note pi = operator_plus_inv and pv = bi_val_operator_plus
  have ab: "BigInteger_inv (operator_plus a b)" and bc: "BigInteger_inv (operator_plus b c)"
    using n by (simp_all add: pi)
  have comm: "operator_eq (operator_plus a b) (operator_plus b a)"
    using n by (simp add: operator_eq_correct pi pv)
  have assoc: "operator_eq (operator_plus (operator_plus a b) c) (operator_plus a (operator_plus b c))"
    using n ab bc by (simp add: operator_eq_correct pi pv inv_normalized)
  have l: "limbs_ok (m_digits a)" "limbs_ok (m_digits b)"
    using assms by (simp_all add: normalized_def)
  from operator_mul_correct [OF l]
  obtain p where p: "operator_mul a b = Some p" "BigInteger_inv p" "bi_val p = bi_val a * bi_val b"
    by blast
  from operator_mul_correct [OF l(2,1)]
  obtain q where q: "operator_mul b a = Some q" "BigInteger_inv q" "bi_val q = bi_val b * bi_val a"
    by blast
  have "operator_eq p q" using p(2,3) q(2,3) by (simp add: operator_eq_correct mult.commute)
  with comm assoc p(1) q(1) show ?thesis by blast
qed

theorem plus_mul_laws_witness:
  "normalized (m_digits (BigInteger_string ''-123456789012345678901234567890''))
   \<and> normalized (m_digits (BigInteger_string ''999999999999999999''))
   \<and> normalized (m_digits (BigInteger_string ''-''))
   \<and> operator_eq
        (operator_plus (BigInteger_string ''-123456789012345678901234567890'')
           (BigInteger_string ''999999999999999999''))
        (operator_plus (BigInteger_string ''999999999999999999'')
           (BigInteger_string ''-123456789012345678901234567890''))
   \<and> operator_eq
        (operator_plus
           (operator_plus (BigInteger_string ''-123456789012345678901234567890'')
              (BigInteger_string ''999999999999999999''))
           (BigInteger_string ''-''))
        (operator_plus (BigInteger_string ''-123456789012345678901234567890'')
           (operator_plus (BigInteger_string ''999999999999999999'') (BigInteger_string ''-'')))
   \<and> (\<exists>p q. operator_mul (BigInteger_string ''-123456789012345678901234567890'')
                 (BigInteger_string ''999999999999999999'') = Some p
          \<and> operator_mul (BigInteger_string ''999999999999999999'')
                 (BigInteger_string ''-123456789012345678901234567890'') = Some q
          \<and> operator_eq p q)"
proof -
  have h: "normalized (m_digits (BigInteger_string ''-123456789012345678901234567890''))"
     "normalized (m_digits (BigInteger_string ''999999999999999999''))"
     "normalized (m_digits (BigInteger_string ''-''))"
    by (simp_all add: eval_simps inv_eval)
  from plus_mul_laws [OF h] h show ?thesis by blast
qed

text \<open>
  Claim C7. Division and modulo by zero are indeed unguarded, but the long division has
  no infinite or undefined loop behaviour there. Every loop of \<^verbatim>\<open>operator/=\<close> is bounded
  independently of the divisor (the limb loop by the size of the dividend, the binary
  search by \<^verbatim>\<open>right - left\<close>), which the termination proofs of \<open>div_loop\<close> and
  \<open>div_search\<close> record, and no vector subscript leaves its range: for every dividend
  with a normalised limb vector and every zero divisor, of either sign flag, the model
  returns a value, never \<open>None\<close>. With a zero divisor every product \<^verbatim>\<open>b * mid\<close> is zero, so
  each search ends at \<open>999999999\<close> and the running remainder is never reduced.
\<close>

theorem div_by_zero_defined:
  "\<not> (\<exists>a b. normalized (m_digits a) \<and> is_zero b
          \<and> (operator_div a b = None \<or> operator_mod a b = None))"
  using div_by_zero_all by auto

text \<open>
  Claim C7, as amended: for every dividend \<open>a\<close> with a normalised limb vector and every
  zero divisor \<open>b\<close>, \<open>a / b\<close> returns a value that is not a meaningful quotient, namely
  the single limb 1 when \<open>a\<close> is zero and otherwise as many limbs as \<open>a\<close> has, every limb
  \<open>999999999\<close>, in both cases with the sign flag \<^verbatim>\<open>m_negative(a) != m_negative(b)\<close>, which
  is the sign of \<open>a\<close> when \<open>b\<close> is \<^verbatim>\<open>BigInteger(0)\<close>; \<open>a % b\<close> returns \<open>a\<close> itself, and
  \<^verbatim>\<open>BigInteger(0)\<close> when \<open>a\<close> is zero.
\<close>

theorem div_by_zero_result:
  assumes "normalized (m_digits a)" "is_zero b"
  shows "operator_div a b
           = Some \<lparr>m_digits = (if is_zero a then [1]
                               else replicate (length (m_digits a)) (CELL_BASE - 1)),
                   m_negative = (m_negative a \<noteq> m_negative b)\<rparr>
       \<and> operator_mod a b
           = Some (if is_zero a then \<lparr>m_digits = [0], m_negative = False\<rparr> else a)"
  using div_by_zero_all [OF assms] by simp

theorem div_by_zero_result_witness:
  "normalized (m_digits (BigInteger_string ''-123456789012345678901234567890''))
   \<and> is_zero (BigInteger_int 0) \<and> is_zero (BigInteger_string ''-'')
   \<and> operator_div (BigInteger_string ''-123456789012345678901234567890'') (BigInteger_int 0)
        = Some \<lparr>m_digits = [999999999, 999999999, 999999999, 999999999], m_negative = True\<rparr>
   \<and> operator_mod (BigInteger_string ''-123456789012345678901234567890'') (BigInteger_int 0)
        = Some (BigInteger_string ''-123456789012345678901234567890'')
   \<and> operator_div (BigInteger_string ''-123456789012345678901234567890'') (BigInteger_string ''-'')
        = Some \<lparr>m_digits = [999999999, 999999999, 999999999, 999999999], m_negative = False\<rparr>
   \<and> operator_mod (BigInteger_string ''-123456789012345678901234567890'') (BigInteger_string ''-'')
        = Some (BigInteger_string ''-123456789012345678901234567890'')"
proof -
  have e: "BigInteger_string ''-123456789012345678901234567890''
             = \<lparr>m_digits = [234567890, 345678901, 456789012, 123], m_negative = True\<rparr>"
    by (simp add: eval_simps)
  have h: "normalized (m_digits (BigInteger_string ''-123456789012345678901234567890''))"
    unfolding e by (simp add: inv_eval CELL_BASE_def)
  have z: "BigInteger_int 0 = \<lparr>m_digits = [0], m_negative = False\<rparr>"
    "BigInteger_string ''-'' = \<lparr>m_digits = [0], m_negative = True\<rparr>"
    by (simp_all add: eval_simps)
  have i: "is_zero (BigInteger_int 0)" "is_zero (BigInteger_string ''-'')"
    unfolding z by (simp_all add: is_zero_def)
  have r4: "replicate 4 x = [x, x, x, x]" for x :: nat
    by (simp add: numeral_eq_Suc)
  from div_by_zero_result [OF h i(1)] div_by_zero_result [OF h i(2)] h i show ?thesis
    unfolding e z by (simp add: is_zero_def CELL_BASE_def r4)
qed

text \<open>
  The round trip on canonical values. Rendering a canonical BigInteger and parsing the
  text gives the same BigInteger back, and parsing a canonical decimal literal and
  rendering the result reproduces the literal.
\<close>

lemma parse_render_roundtrip_canonical:
  "(\<forall>x. BigInteger_inv x \<longrightarrow>
       (\<exists>s. toString x = Some s \<and> operator_eq (BigInteger_string s) x))
   \<and> (\<forall>s. canonical_decimal s \<longrightarrow> toString (BigInteger_string s) = Some s)"
proof (intro conjI allI impI)
  fix x
  assume inv: "BigInteger_inv x"
  define sg where "sg = (if m_negative x then ''-'' else [])"
  define body where "body = to_string (lv (m_digits x))"
  have ts: "toString x = Some (sg @ body)"
    using toString_correct [OF inv] by (simp add: sg_def body_def)
  have sg: "sg = [] \<or> sg = ''-'' \<or> sg = ''+''" by (simp add: sg_def)
  have b: "body \<noteq> []" "list_all isdigit body"
    by (simp_all add: body_def to_string_nonempty to_string_digits)
  note c = BigInteger_string_correct [OF refl sg b]
  have "bi_val (BigInteger_string (sg @ body)) = bi_val x"
    using c(2) by (simp add: sg_def body_def stoul_to_string bi_val_def)
  then have "BigInteger_string (sg @ body) = x"
    using c(1) inv by (intro bi_val_inj)
  then show "\<exists>s. toString x = Some s \<and> operator_eq (BigInteger_string s) x"
    using ts by (simp add: operator_eq_iff)
next
  fix s
  assume can: "canonical_decimal s"
  show "toString (BigInteger_string s) = Some s"
  proof (cases "s = ''0''")
    case True
    have "isdigit CHR ''0''" by (simp add: isdigit_def)
    then show ?thesis 
      using toString_BigInteger_string [of s "[]" s] True by simp
  next
    case False
    define body where "body = (case s of [] \<Rightarrow> [] | c # cs \<Rightarrow> if c = CHR ''-'' then cs else s)"
    from can False have b: "body \<noteq> []" "list_all isdigit body" "hd body \<noteq> CHR ''0''"
      by (simp_all add: canonical_decimal_def body_def Let_def)
    define sg where "sg = (if hd s = CHR ''-'' then ''-'' else [])"
    have "s = sg @ body"
      using b(1) by (cases s) (auto simp: body_def sg_def)
    moreover have "sg = [] \<or> sg = ''-''" by (simp add: sg_def)
    ultimately show ?thesis using b by (intro toString_BigInteger_string [of s sg body]) simp_all
  qed
qed

lemma parse_render_roundtrip_canonical_instance:
  "BigInteger_inv \<lparr>m_digits = [5, 0, 42], m_negative = True\<rparr>
   \<and> toString \<lparr>m_digits = [5, 0, 42], m_negative = True\<rparr> = Some ''-42000000000000000005''
   \<and> operator_eq (BigInteger_string ''-42000000000000000005'')
        \<lparr>m_digits = [5, 0, 42], m_negative = True\<rparr>
   \<and> canonical_decimal ''-42000000000000000005''
   \<and> toString (BigInteger_string ''-42000000000000000005'') = Some ''-42000000000000000005''"
proof -
  have h: "BigInteger_inv \<lparr>m_digits = [5, 0, 42], m_negative = True\<rparr>"
    by (simp add: inv_eval CELL_BASE_def)
  have t: "toString \<lparr>m_digits = [5, 0, 42], m_negative = True\<rparr> = Some ''-42000000000000000005''"
    by (simp add: toString_def is_zero_def pad_cell_def Let_def CELL_LEN_def to_string.simps
        digit_char_eval digit_char_Suc0 replicate_eval)
  have c: "canonical_decimal ''-42000000000000000005''"
    by (simp add: canonical_decimal_def isdigit_def)
  note r = parse_render_roundtrip_canonical
  from r h obtain s where s: "toString \<lparr>m_digits = [5, 0, 42], m_negative = True\<rparr> = Some s"
    "operator_eq (BigInteger_string s) \<lparr>m_digits = [5, 0, 42], m_negative = True\<rparr>"
    by blast
  from s(1) t have "s = ''-42000000000000000005''" by simp
  with s(2) have e: "operator_eq (BigInteger_string ''-42000000000000000005'')
        \<lparr>m_digits = [5, 0, 42], m_negative = True\<rparr>" by simp
  from r c have p: "toString (BigInteger_string ''-42000000000000000005'') = Some ''-42000000000000000005''"
    by blast
  from h t e c p show ?thesis by blast
qed

text \<open>
  Claim C3. The round trip is stated for every BigInteger \<open>x\<close>. It holds for every
  canonical \<open>x\<close> and for every canonical literal, as shown above, but the string
  constructor returns a negative zero on a lone minus sign. \<^verbatim>\<open>toString\<close> tests \<^verbatim>\<open>is_zero\<close>
  first, which ignores the sign flag, and renders that value as \<open>0\<close>; the text \<open>0\<close>
  parses to \<^verbatim>\<open>BigInteger(0)\<close>, which \<^verbatim>\<open>operator==\<close> tells apart from the negative zero.
\<close>

theorem parse_render_negative_zero:
  "BigInteger_string ''-'' = \<lparr>m_digits = [0], m_negative = True\<rparr>
   \<and> toString (BigInteger_string ''-'') = Some ''0''
   \<and> BigInteger_string ''0'' = \<lparr>m_digits = [0], m_negative = False\<rparr>
   \<and> \<not> operator_eq (BigInteger_string ''0'') (BigInteger_string ''-'')"
  by (simp add: eval_simps)

text \<open>
  Claim C5. Every constructor and every compound assignment of \<^verbatim>\<open>Rational\<close> returns a
  value with a strictly positive denominator and \<open>gcd(|numerator|, |denominator|) = 1\<close>,
  as long as no denominator is zero. The BigInteger arguments of the constructors are
  any values with normalised limb vectors, the negative zero included; the machine
  integer of \<^verbatim>\<open>Rational(int)\<close> is any \<^verbatim>\<open>int\<close> other than \<^verbatim>\<open>INT_MIN\<close>, on which the source has
  undefined behaviour; the pair constructor needs a non-zero denominator. The operands
  of \<open>+=\<close>, \<open>-=\<close>, \<open>*=\<close> and \<open>/=\<close> are any Rationals in lowest terms, so the property is
  an invariant of every sequence of these operations; \<open>/=\<close> needs a divisor with a
  non-zero numerator, also in the call \<^verbatim>\<open>x /= x\<close>. In particular \<^verbatim>\<open>Rational(4, 8)\<close> is \<open>1/2\<close>
  and renders as \<open>1/2\<close>.
\<close>

theorem Rational_lowest_terms:
  "(\<forall>n d. normalized (m_digits n) \<and> normalized (m_digits d) \<and> \<not> is_zero d \<longrightarrow>
       (\<exists>r. Rational_pair n d = Some r \<and> Rational_lowest r))
   \<and> Rational_lowest Rational_default
   \<and> (\<forall>i. - INT_MAX \<le> i \<and> i \<le> INT_MAX \<longrightarrow>
         (\<exists>r. Rational_int i = Some r \<and> Rational_lowest r))
   \<and> (\<forall>i r. Rational_int i = Some r \<longrightarrow> Rational_lowest r)
   \<and> (\<forall>n. normalized (m_digits n) \<longrightarrow> Rational_lowest (Rational_BigInteger n))
   \<and> (\<forall>x y. Rational_lowest x \<and> Rational_lowest y \<longrightarrow>
         (\<exists>r. Rational_plus x y = Some r \<and> Rational_lowest r)
       \<and> (\<exists>r. Rational_minus x y = Some r \<and> Rational_lowest r)
       \<and> (\<exists>r. Rational_mul x y = Some r \<and> Rational_lowest r)
       \<and> (\<not> is_zero (numerator y) \<longrightarrow> (\<exists>r. Rational_div x y = Some r \<and> Rational_lowest r)))
   \<and> (\<forall>x. Rational_lowest x \<and> \<not> is_zero (numerator x) \<longrightarrow>
         (\<exists>r. Rational_div_self x = Some r \<and> Rational_lowest r))
   \<and> Rational_pair (BigInteger_int 4) (BigInteger_int 8)
        = Some \<lparr>numerator = BigInteger_int 1, denominator = BigInteger_int 2\<rparr>
   \<and> Rational_toString \<lparr>numerator = BigInteger_int 1, denominator = BigInteger_int 2\<rparr>
        = Some ''1/2''"
proof (intro conjI allI impI)
  fix n d :: BigInteger
  assume h: "normalized (m_digits n) \<and> normalized (m_digits d) \<and> \<not> is_zero d"
  then have "\<exists>r. Rational_pair n d = Some r \<and> Rational_inv r"
    unfolding Rational_pair_def by (intro Rational_normalize_lowest) simp_all
  then show "\<exists>r. Rational_pair n d = Some r \<and> Rational_lowest r"
    using Rational_inv_lowest by blast
next
  show "Rational_lowest Rational_default" by (rule Rational_ctor_lowest)
next
  fix i :: int
  assume "- INT_MAX \<le> i \<and> i \<le> INT_MAX"
  then show "\<exists>r. Rational_int i = Some r \<and> Rational_lowest r"
    using Rational_ctor_lowest(2) [of i] by simp
next
  fix i r
  assume "Rational_int i = Some r"
  then show "Rational_lowest r"
    using Rational_ctor_lowest(2) [of i]
    by (auto simp: Rational_int_def BigInteger_int_ctor_def split: if_splits)
next
  fix n :: BigInteger assume "normalized (m_digits n)"
  then show "Rational_lowest (Rational_BigInteger n)" by (rule Rational_ctor_lowest)
next
  fix x y assume h: "Rational_lowest x \<and> Rational_lowest y"
  then have x: "Rational_lowest x" and y: "Rational_lowest y" by simp_all
  show "\<exists>r. Rational_plus x y = Some r \<and> Rational_lowest r"
    using Rational_arith_lowest(1) [OF x y] Rational_inv_lowest by blast
  show "\<exists>r. Rational_minus x y = Some r \<and> Rational_lowest r"
    using Rational_arith_lowest(2) [OF x y] Rational_inv_lowest by blast
  show "\<exists>r. Rational_mul x y = Some r \<and> Rational_lowest r"
    using Rational_arith_lowest(3) [OF x y] Rational_inv_lowest by blast
next
  fix x y assume h: "Rational_lowest x \<and> Rational_lowest y"
    and nz: "\<not> is_zero (numerator y)"
  then have x: "Rational_lowest x" and y: "Rational_lowest y" by simp_all
  have "normalized (m_digits (numerator y))" using y by (simp add: Rational_lowest_def)
  then have "bi_val (numerator y) \<noteq> 0"
    using nz is_zero_bi_val [OF normalized_nonzero_inv] by blast
  then show "\<exists>r. Rational_div x y = Some r \<and> Rational_lowest r"
    using Rational_arith_lowest(4) [OF x y] Rational_inv_lowest by blast
next
  fix x assume h: "Rational_lowest x \<and> \<not> is_zero (numerator x)"
  then have x: "Rational_lowest x" and nz: "\<not> is_zero (numerator x)" by simp_all
  have "normalized (m_digits (numerator x))" using x by (simp add: Rational_lowest_def)
  then have "bi_val (numerator x) \<noteq> 0"
    using nz is_zero_bi_val [OF normalized_nonzero_inv] by blast
  then show "\<exists>r. Rational_div_self x = Some r \<and> Rational_lowest r"
    using Rational_arith_lowest(5) [OF x x] Rational_inv_lowest by blast
next
  have i: "BigInteger_inv (BigInteger_int 4)" "BigInteger_inv (BigInteger_int 8)"
    by (rule BigInteger_int_inv)+
  have g: "gcd (4::int) 8 = 4" by (simp add: gcd_red_int [of 4 8])
  show "Rational_pair (BigInteger_int 4) (BigInteger_int 8)
        = Some \<lparr>numerator = BigInteger_int 1, denominator = BigInteger_int 2\<rparr>"
    using Rational_normalize_correct [of "\<lparr>numerator = BigInteger_int 4, denominator = BigInteger_int 8\<rparr>"]
    by (simp add: Rational_pair_def BigInteger_int_correct g)
next
  have e: "BigInteger_int 1 = \<lparr>m_digits = [1], m_negative = False\<rparr>"
    "BigInteger_int 2 = \<lparr>m_digits = [2], m_negative = False\<rparr>"
    by (simp_all add: BigInteger_int_small CELL_BASE_def)
  show "Rational_toString \<lparr>numerator = BigInteger_int 1, denominator = BigInteger_int 2\<rparr>
        = Some ''1/2''"
    by (simp add: e Rational_toString_def operator_eq_def toString_def is_zero_def
        to_string.simps digit_char_eval digit_char_Suc0)
qed

theorem Rational_lowest_terms_witness:
  "normalized (m_digits (BigInteger_string ''-'')) \<and> normalized (m_digits (BigInteger_int (- 4)))
   \<and> \<not> is_zero (BigInteger_int (- 4))
   \<and> (\<exists>r. Rational_pair (BigInteger_string ''-'') (BigInteger_int (- 4)) = Some r
          \<and> Rational_lowest r)
   \<and> Rational_lowest (Rational_BigInteger (BigInteger_string ''-''))
   \<and> - INT_MAX \<le> - 3 \<and> - 3 \<le> INT_MAX
   \<and> (\<exists>r. Rational_int (- 3) = Some r \<and> Rational_lowest r)
   \<and> normalized (m_digits (BigInteger_int 5)) \<and> normalized (m_digits (BigInteger_int (- 3)))
   \<and> Rational_lowest (Rational_BigInteger (BigInteger_int 5))
   \<and> Rational_lowest (Rational_BigInteger (BigInteger_int (- 3)))
   \<and> \<not> is_zero (numerator (Rational_BigInteger (BigInteger_int (- 3))))
   \<and> (\<exists>r. Rational_plus (Rational_BigInteger (BigInteger_int 5))
               (Rational_BigInteger (BigInteger_int (- 3))) = Some r \<and> Rational_lowest r)
   \<and> (\<exists>r. Rational_minus (Rational_BigInteger (BigInteger_int 5))
               (Rational_BigInteger (BigInteger_int (- 3))) = Some r \<and> Rational_lowest r)
   \<and> (\<exists>r. Rational_mul (Rational_BigInteger (BigInteger_int 5))
               (Rational_BigInteger (BigInteger_int (- 3))) = Some r \<and> Rational_lowest r)
   \<and> (\<exists>r. Rational_div (Rational_BigInteger (BigInteger_int 5))
               (Rational_BigInteger (BigInteger_int (- 3))) = Some r \<and> Rational_lowest r)
   \<and> (\<exists>r. Rational_div_self (Rational_BigInteger (BigInteger_int (- 3))) = Some r
          \<and> Rational_lowest r)"
proof -
  define x where "x = Rational_BigInteger (BigInteger_int 5)"
  define y where "y = Rational_BigInteger (BigInteger_int (- 3))"
  have z: "BigInteger_string ''-'' = \<lparr>m_digits = [0], m_negative = True\<rparr>"
    by (simp add: eval_simps)
  have h0: "normalized (m_digits (BigInteger_string ''-''))"
    unfolding z by (simp add: inv_eval CELL_BASE_def)
  have h1: "normalized (m_digits (BigInteger_int (- 4)))" "\<not> is_zero (BigInteger_int (- 4))"
    by (simp_all add: inv_normalized BigInteger_int_inv is_zero_bi_val bi_val_BigInteger_int)
  have h2: "- INT_MAX \<le> - 3 \<and> - 3 \<le> INT_MAX" by (simp add: INT_MAX_def)
  have h3: "normalized (m_digits (BigInteger_int 5))" "normalized (m_digits (BigInteger_int (- 3)))"
    by (simp_all add: inv_normalized BigInteger_int_inv)
  have h4: "\<not> is_zero (numerator y)"
    by (simp add: y_def Rational_BigInteger_def BigInteger_int_inv is_zero_bi_val
        bi_val_BigInteger_int)
  note t = Rational_lowest_terms
  from t h0 h1 have c1: "\<exists>r. Rational_pair (BigInteger_string ''-'') (BigInteger_int (- 4)) = Some r
          \<and> Rational_lowest r"
    by blast
  from t h0 have c2: "Rational_lowest (Rational_BigInteger (BigInteger_string ''-''))" by blast
  from t h2 have c3: "\<exists>r. Rational_int (- 3) = Some r \<and> Rational_lowest r" by blast
  from t h3 have lx: "Rational_lowest x" and ly: "Rational_lowest y"
    unfolding x_def y_def by blast+
  from t lx ly have c4: "(\<exists>r. Rational_plus x y = Some r \<and> Rational_lowest r)
       \<and> (\<exists>r. Rational_minus x y = Some r \<and> Rational_lowest r)
       \<and> (\<exists>r. Rational_mul x y = Some r \<and> Rational_lowest r)
       \<and> (\<not> is_zero (numerator y) \<longrightarrow> (\<exists>r. Rational_div x y = Some r \<and> Rational_lowest r))"
    by blast
  from t ly h4 have c5: "\<exists>r. Rational_div_self y = Some r \<and> Rational_lowest r" by blast
  from h0 h1 h2 h3 h4 c1 c2 c3 lx ly c4 c5 show ?thesis
    unfolding x_def y_def by blast
qed

text \<open>
  Claim C9. For a canonical Rational and a precision \<open>p > 0\<close>, \<^verbatim>\<open>asDecimal(p)\<close> returns the
  text of the specification: a lone minus sign exactly when the value is negative and its
  integer part is zero, the integer part (the quotient truncated toward zero), a point,
  and exactly \<open>p\<close> fractional digits, each obtained by multiplying the absolute remainder
  by ten and dividing by the denominator; digit \<open>i\<close> is the \<open>i\<close>-th decimal of the
  absolute value, so the expansion is truncated and never rounded. In particular
  \<^verbatim>\<open>Rational(1,3).asDecimal(4)\<close> is \<open>0.3333\<close>.
\<close>

theorem asDecimal_truncated_expansion:
  "(\<forall>r (p::nat). Rational_inv r \<and> 0 < p \<longrightarrow>
       asDecimal r p
         = Some ((if bi_val (numerator r) < 0
                    \<and> tdiv (bi_val (numerator r)) (bi_val (denominator r)) = 0
                  then ''-'' else [])
                 @ decimal_of_int (tdiv (bi_val (numerator r)) (bi_val (denominator r)))
                 @ ''.''
                 @ map digit_char
                     (frac_digits p
                        (nat (\<bar>bi_val (numerator r)\<bar> mod bi_val (denominator r)))
                        (nat (bi_val (denominator r)))))
     \<and> length (frac_digits p (nat (\<bar>bi_val (numerator r)\<bar> mod bi_val (denominator r)))
                  (nat (bi_val (denominator r)))) = p
     \<and> (\<forall>i<p. frac_digits p (nat (\<bar>bi_val (numerator r)\<bar> mod bi_val (denominator r)))
                  (nat (bi_val (denominator r))) ! i
               = (nat \<bar>bi_val (numerator r)\<bar> * 10 ^ Suc i div nat (bi_val (denominator r))) mod 10))
   \<and> Rational_pair (BigInteger_int 1) (BigInteger_int 3)
        = Some \<lparr>numerator = BigInteger_int 1, denominator = BigInteger_int 3\<rparr>
   \<and> asDecimal \<lparr>numerator = BigInteger_int 1, denominator = BigInteger_int 3\<rparr> 4
        = Some ''0.3333''"
proof (intro conjI allI impI)
  fix r and p :: nat
  assume h: "Rational_inv r \<and> 0 < p"
  then have a: "BigInteger_inv (numerator r)" "BigInteger_inv (denominator r)"
    "0 < bi_val (denominator r)" "0 < p"
    by (simp_all add: Rational_inv_def)
  show "asDecimal r p
         = Some ((if bi_val (numerator r) < 0
                    \<and> tdiv (bi_val (numerator r)) (bi_val (denominator r)) = 0
                  then ''-'' else [])
                 @ decimal_of_int (tdiv (bi_val (numerator r)) (bi_val (denominator r)))
                 @ ''.''
                 @ map digit_char
                     (frac_digits p
                        (nat (\<bar>bi_val (numerator r)\<bar> mod bi_val (denominator r)))
                        (nat (bi_val (denominator r)))))"
    using asDecimal_correct [OF a] by (simp add: asDecimal_spec_def)
  show "length (frac_digits p (nat (\<bar>bi_val (numerator r)\<bar> mod bi_val (denominator r)))
                  (nat (bi_val (denominator r)))) = p"
    by simp
next
  fix r and p i :: nat
  assume h: "Rational_inv r \<and> 0 < p" and i: "i < p"
  then have d: "0 < bi_val (denominator r)" by (simp add: Rational_inv_def)
  have "nat (\<bar>bi_val (numerator r)\<bar> mod bi_val (denominator r))
          = nat \<bar>bi_val (numerator r)\<bar> mod nat (bi_val (denominator r))"
    using d by (simp add: nat_mod_distrib)
  then show "frac_digits p (nat (\<bar>bi_val (numerator r)\<bar> mod bi_val (denominator r)))
                  (nat (bi_val (denominator r))) ! i
               = (nat \<bar>bi_val (numerator r)\<bar> * 10 ^ Suc i div nat (bi_val (denominator r))) mod 10"
    using frac_digits_nth [of "nat (bi_val (denominator r))" i p "nat \<bar>bi_val (numerator r)\<bar>"] d i
    by simp
next
  have g: "gcd (1::int) 3 = 1" by simp
  show "Rational_pair (BigInteger_int 1) (BigInteger_int 3)
        = Some \<lparr>numerator = BigInteger_int 1, denominator = BigInteger_int 3\<rparr>"
    using Rational_normalize_correct [of "\<lparr>numerator = BigInteger_int 1, denominator = BigInteger_int 3\<rparr>"]
    by (simp add: Rational_pair_def BigInteger_int_correct)
next
  have "frac_digits 4 1 3 = [3, 3, 3, 3]"
    by (simp add: frac_digits_numeral)
  then have f: "frac_digits 4 (Suc 0) 3 = [3, 3, 3, 3]" by simp
  have t: "tdiv 1 3 = 0" by (simp add: tdiv_def)
  have "asDecimal \<lparr>numerator = BigInteger_int 1, denominator = BigInteger_int 3\<rparr> 4
          = Some (asDecimal_spec 1 3 4)"
    using asDecimal_correct [of "\<lparr>numerator = BigInteger_int 1, denominator = BigInteger_int 3\<rparr>" 4]
    by (simp add: BigInteger_int_correct)
  also have "asDecimal_spec 1 3 4 = ''0.3333''"
    by (simp add: asDecimal_spec_def t f decimal_of_int_def to_string_small digit_char_eval)
  finally show "asDecimal \<lparr>numerator = BigInteger_int 1, denominator = BigInteger_int 3\<rparr> 4
        = Some ''0.3333''" .
qed

theorem asDecimal_truncated_expansion_witness:
  "Rational_inv \<lparr>numerator = BigInteger_int (- 1), denominator = BigInteger_int 3\<rparr>
   \<and> (0::nat) < 3
   \<and> asDecimal \<lparr>numerator = BigInteger_int (- 1), denominator = BigInteger_int 3\<rparr> 3
        = Some ''-0.333''"
proof -
  define r where "r = \<lparr>numerator = BigInteger_int (- 1), denominator = BigInteger_int 3\<rparr>"
  have v: "bi_val (numerator r) = - 1" "bi_val (denominator r) = 3"
    by (simp_all add: r_def bi_val_BigInteger_int)
  have h: "Rational_inv r \<and> (0::nat) < 3"
    by (simp add: Rational_inv_def v) (simp add: r_def BigInteger_int_inv)
  have "frac_digits 3 1 3 = [3, 3, 3]"
    by (simp add: frac_digits_numeral)
  then have f: "frac_digits 3 (Suc 0) 3 = [3, 3, 3]" by simp
  have t: "tdiv (- 1) 3 = 0" by (simp add: tdiv_def)
  from asDecimal_truncated_expansion h
  have "asDecimal r 3
         = Some ((if bi_val (numerator r) < 0
                    \<and> tdiv (bi_val (numerator r)) (bi_val (denominator r)) = 0
                  then ''-'' else [])
                 @ decimal_of_int (tdiv (bi_val (numerator r)) (bi_val (denominator r)))
                 @ ''.''
                 @ map digit_char
                     (frac_digits 3
                        (nat (\<bar>bi_val (numerator r)\<bar> mod bi_val (denominator r)))
                        (nat (bi_val (denominator r)))))"
    by blast
  then have "asDecimal r 3 = Some ''-0.333''"
    by (simp add: v t f decimal_of_int_def to_string_small digit_char_eval)
  with h show ?thesis by (simp add: r_def)
qed

end
